theory Spec2Isabelle
  imports Complex_Main "HOL-Library.Word" "HOL-Library.Signed_Division"
begin

unbundle bit_operations_syntax

section \<open>Digest primitive\<close>

text \<open>
  A node holds a fixed array of \<open>digestBytes = 32\<close> bytes. The digest is Go's
  \<open>crypto/sha256\<close>, which lies outside the repository: every definition that hashes
  takes it as the parameter \<open>h\<close>, a function from byte strings to digests.
\<close>

type_synonym byte = "8 word"

type_synonym sha256 = "byte list \<Rightarrow> byte list"

datatype Node = Node (data: "byte list")

definition digestBytes :: nat where
  "digestBytes = 32"

text \<open>The zero value of \<open>Node\<close>, as \<open>make([]Node, k)\<close> fills a fresh slice.\<close>

definition zeroNode :: Node where
  "zeroNode = Node (replicate digestBytes 0)"

text \<open>\<open>truncatedHash\<close>: SHA-256, then \<open>digst[(256/8)-1] &= 0b00111111\<close>.\<close>

definition truncatedHash :: "sha256 \<Rightarrow> byte list \<Rightarrow> Node" where
  "truncatedHash h bs =
     (let digst = h bs
      in Node (digst[256 div 8 - 1 := (digst ! (256 div 8 - 1)) AND 0x3F]))"

text \<open>\<open>computeNode\<close>: the two 32-byte arrays are copied side by side and hashed.\<close>

definition computeNode :: "sha256 \<Rightarrow> Node \<Rightarrow> Node \<Rightarrow> Node" where
  "computeNode h left right = truncatedHash h (data left @ data right)"

definition hashList :: "sha256 \<Rightarrow> byte list list \<Rightarrow> Node list" where
  "hashList h input = map (truncatedHash h) input"

section \<open>Integer helpers\<close>

text \<open>
  Go's \<open>/\<close> and \<open>%\<close> on \<open>int\<close> truncate towards zero: \<open>sdiv\<close> and \<open>smod\<close>.
  \<open>getSiblingIdx\<close> cannot overflow: the largest \<open>int\<close> is odd and the smallest is even.
\<close>

definition getSiblingIdx :: "int \<Rightarrow> int" where
  "getSiblingIdx i = (if i smod 2 = 0 then i + 1 else i - 1)"

definition max_i :: "nat \<Rightarrow> nat \<Rightarrow> nat" where
  "max_i x y = (if x > y then x else y)"

text \<open>\<open>halfCeil\<close> is only ever applied to the length of a slice.\<close>

definition halfCeil :: "nat \<Rightarrow> nat" where
  "halfCeil x = (if x mod 2 = 0 then x div 2 else 1 + x div 2)"

definition tab64 :: "64 word list" where
  "tab64 = [0xFFFFFFFF00000000, 0x00000000FFFF0000, 0x000000000000FF00,
            0x00000000000000F0, 0x000000000000000C, 0x0000000000000002]"

text \<open>
  The loop of \<open>log2Ceil\<close> runs over the six entries of \<open>tab64\<close> with the state
  \<open>(y, value, j)\<close>; \<open>uint64(value)\<close> is \<open>word_of_int\<close>, \<open>>>\<close> on \<open>int\<close> is \<open>drop_bit\<close>.
  The argument is always the length of a slice, so \<open>value - 1\<close> does not wrap.
\<close>

fun log2CeilLoop :: "64 word list \<Rightarrow> int \<Rightarrow> int \<Rightarrow> int \<Rightarrow> int" where
  "log2CeilLoop [] y v j = y"
| "log2CeilLoop (t # ts) y v j =
     (let k = (if (word_of_int v :: 64 word) AND t = 0 then 0 else j)
      in log2CeilLoop ts (y + k) (drop_bit (nat k) v) (drop_bit 1 j))"

definition log2Ceil :: "int \<Rightarrow> int" where
  "log2Ceil v =
     (let y = (if v AND (v - 1) = 0 then 0 else 1)
      in log2CeilLoop tab64 y v 32)"

section \<open>Errors\<close>

text \<open>
  The error returns of the tree package (\<open>GrowTree\<close> on empty input; \<open>ConstructProof\<close> on a
  level out of range, a negative index, an index beyond a row), and the two run-time
  panics its code can reach: an index or slice bound out of range, a nil pointer
  dereference.
\<close>

datatype error =
    EmptyInput
  | LevelOutOfRange
  | NegativeIndex
  | IndexOutOfRange
  | PanicIndexOutOfRange
  | PanicNilDereference

section \<open>Tree construction\<close>

record TreeData =
  nodes :: "Node list list"

definition Depth :: "TreeData \<Rightarrow> int" where
  "Depth d = int (length (nodes d))"

definition Leafs :: "TreeData \<Rightarrow> error + int" where
  "Leafs d =
     (if nodes d = [] then Inl PanicIndexOutOfRange
      else Inr (int (length (nodes d ! (length (nodes d) - 1)))))"

definition GetRoot :: "TreeData \<Rightarrow> error + Node" where
  "GetRoot d =
     (if nodes d = [] then Inl PanicIndexOutOfRange
      else if nodes d ! 0 = [] then Inl PanicIndexOutOfRange
      else Inr (nodes d ! 0 ! 0))"

text \<open>
  \<open>NewBareTree\<close> makes \<open>1 + log2Ceil(elements)\<close> rows, row \<open>i\<close> of \<open>1 << i\<close> zero nodes.
  The shift stays positive in a 64-bit \<open>int\<close> for \<open>i \<le> 62\<close>, that is for up to \<open>2^62\<close>
  elements.
\<close>

definition NewBareTree :: "int \<Rightarrow> TreeData" where
  "NewBareTree elements =
     \<lparr>nodes = map (\<lambda>i. replicate (2 ^ i) zeroNode) [0 ..< nat (1 + log2Ceil elements)]\<rparr>"

text \<open>
  The inner loop of \<open>growTreeHashedLeafs\<close>:
  \<open>for i := 0; i+1 < len(preLevel); i = i + 2\<close>.
\<close>

function levelLoop :: "sha256 \<Rightarrow> Node list \<Rightarrow> nat \<Rightarrow> Node list \<Rightarrow> Node list" where
  "levelLoop h preLevel i currentLevel =
     (if i + 1 < length preLevel
      then levelLoop h preLevel (i + 2)
             (currentLevel[i div 2 := computeNode h (preLevel ! i) (preLevel ! (i + 1))])
      else currentLevel)"
  by pat_completeness auto
termination
  by (relation "measure (\<lambda>(h, preLevel, i, currentLevel). length preLevel - i)") auto

declare levelLoop.simps [simp del]

text \<open>One pass of the outer loop: the row above \<open>preLevel\<close>.\<close>

definition growLevel :: "sha256 \<Rightarrow> Node list \<Rightarrow> Node list" where
  "growLevel h preLevel =
     (let currentLevel =
            levelLoop h preLevel 0 (replicate (halfCeil (length preLevel)) zeroNode)
      in if length preLevel mod 2 = 1
         then currentLevel[halfCeil (length preLevel) - 1 :=
                truncatedHash h (data (preLevel ! (length preLevel - 1)))]
         else currentLevel)"

text \<open>
  The outer loop, \<open>for level := log2Ceil(len(leafs)) - 1; level >= 0; level--\<close>: the
  counter of \<open>growLoop\<close> is \<open>level + 1\<close>.
\<close>

fun growLoop :: "sha256 \<Rightarrow> nat \<Rightarrow> Node list \<Rightarrow> Node list list \<Rightarrow> Node list list" where
  "growLoop h 0 preLevel ns = ns"
| "growLoop h (Suc level) preLevel ns =
     (let currentLevel = growLevel h preLevel
      in growLoop h level currentLevel (ns[level := currentLevel]))"

definition growTreeHashedLeafs :: "sha256 \<Rightarrow> Node list \<Rightarrow> TreeData" where
  "growTreeHashedLeafs h leafs =
     (let tree = NewBareTree (int (length leafs));
          leafLvl = nat (log2Ceil (int (length leafs)))
      in \<lparr>nodes = growLoop h leafLvl leafs ((nodes tree)[leafLvl := leafs])\<rparr>)"

definition GrowTree :: "sha256 \<Rightarrow> byte list list \<Rightarrow> error + TreeData" where
  "GrowTree h leafData =
     (if leafData = [] then Inl EmptyInput
      else Inr (growTreeHashedLeafs h (hashList h leafData)))"

section \<open>Proof extraction\<close>

record ProofData =
  path :: "Node list"
  lvl :: int
  idx :: int

text \<open>
  The loop of \<open>ConstructProof\<close>, \<open>for currentLvl := lvl; currentLvl >= 1; currentLvl--\<close>,
  with \<open>currentLvl = Suc l\<close> and \<open>proofNodes\<close> for the slice \<open>proof\<close>. The guards before
  the loop give \<open>currentLvl < len(d.nodes)\<close> and \<open>0 \<le> currentIdx\<close>, and the test on the row's
  length guards the read of the sibling.
\<close>

fun proofLoop :: "TreeData \<Rightarrow> nat \<Rightarrow> int \<Rightarrow> Node list \<Rightarrow> error + Node list" where
  "proofLoop d 0 currentIdx proofNodes = Inr proofNodes"
| "proofLoop d (Suc l) currentIdx proofNodes =
     (let row = nodes d ! Suc l
      in if int (length row) \<le> currentIdx then Inl IndexOutOfRange
         else proofLoop d l (currentIdx sdiv 2)
                (if int (length row) > getSiblingIdx currentIdx
                 then proofNodes[l := row ! nat (getSiblingIdx currentIdx)]
                 else proofNodes))"

definition ConstructProof :: "TreeData \<Rightarrow> int \<Rightarrow> int \<Rightarrow> error + ProofData" where
  "ConstructProof d lv ix =
     (if lv < 1 \<or> lv \<ge> Depth d then Inl LevelOutOfRange
      else if ix < 0 then Inl NegativeIndex
      else (case proofLoop d (nat lv) ix (replicate (nat lv) zeroNode) of
              Inl e \<Rightarrow> Inl e
            | Inr p \<Rightarrow> Inr \<lparr>path = p, lvl = lv, idx = ix\<rparr>))"

text \<open>
  What one pass of the loop of \<open>ConstructProof\<close> leaves in its slot of the path, for the
  row \<open>d.nodes[currentLvl]\<close> and \<open>currentIdx = c\<close>: the sibling when the row reaches it,
  and otherwise the zero node the slot was created with.
\<close>

definition siblingEntry :: "Node list \<Rightarrow> nat \<Rightarrow> Node" where
  "siblingEntry row c =
     (if getSiblingIdx (int c) < int (length row) then row ! nat (getSiblingIdx (int c))
      else zeroNode)"

record BatchedProofData =
  leftPath :: "Node list"
  rightPath :: "Node list"
  commonPath :: "Node list"
  leftLvl :: int
  leftIdx :: int
  rightLvl :: int
  rightIdx :: int

text \<open>
  The scan of \<open>ConstructBatchedProof\<close>, \<open>for ctr = 0; ctr < maxLength; ctr++\<close>. Reading
  \<open>path[ctr]\<close> past the end of either path is Go's index-out-of-range panic.
\<close>

function commonLoop :: "Node list \<Rightarrow> Node list \<Rightarrow> nat \<Rightarrow> nat \<Rightarrow> error + nat" where
  "commonLoop lp rp maxLength ctr =
     (if ctr < maxLength
      then (if length lp \<le> ctr \<or> length rp \<le> ctr then Inl PanicIndexOutOfRange
            else if lp ! ctr \<noteq> rp ! ctr then Inr ctr
            else commonLoop lp rp maxLength (ctr + 1))
      else Inr ctr)"
  by pat_completeness auto
termination
  by (relation "measure (\<lambda>(lp, rp, maxLength, ctr). maxLength - ctr)") auto

declare commonLoop.simps [simp del]

definition ConstructBatchedProof ::
  "TreeData \<Rightarrow> int \<Rightarrow> int \<Rightarrow> int \<Rightarrow> int \<Rightarrow> error + BatchedProofData" where
  "ConstructBatchedProof d ll li rl ri =
     (if ll < 1 \<or> ll \<ge> Depth d \<or> rl < 1 \<or> rl \<ge> Depth d then Inl LevelOutOfRange
      else if li < 0 \<or> ri < 0 then Inl NegativeIndex
      else (case ConstructProof d ll li of
              Inl e \<Rightarrow> Inl e
            | Inr leftProof \<Rightarrow>
               (case ConstructProof d rl ri of
                  Inl e \<Rightarrow> Inl e
                | Inr rightProof \<Rightarrow>
                   (case commonLoop (path leftProof) (path rightProof)
                           (max_i (length (path leftProof)) (length (path rightProof))) 0 of
                      Inl e \<Rightarrow> Inl e
                    | Inr ctr \<Rightarrow>
                       if length (path leftProof) < ctr \<or> length (path rightProof) < ctr
                       then Inl PanicIndexOutOfRange
                       else Inr \<lparr>leftPath = drop ctr (path leftProof),
                                 rightPath = drop ctr (path rightProof),
                                 commonPath = take ctr (path rightProof),
                                 leftLvl = ll, leftIdx = li,
                                 rightLvl = rl, rightIdx = ri\<rparr>))))"

section \<open>Proof validation\<close>

text \<open>
  The loop of \<open>ValidateSubtree\<close>, with \<open>currentLvl = Suc l\<close>. \<open>parent\<close> is a pointer that
  is nil until the first pass; \<open>d.path[currentLvl-1]\<close> panics past the end of the path.
  The arguments \<open>subtree\<close> and \<open>root\<close> are nodes, that is non-nil pointers.
\<close>

fun validateLoop ::
  "sha256 \<Rightarrow> Node list \<Rightarrow> nat \<Rightarrow> Node \<Rightarrow> int \<Rightarrow> Node option \<Rightarrow> error + Node option" where
  "validateLoop h p 0 currentNode currentIdx parent = Inr parent"
| "validateLoop h p (Suc l) currentNode currentIdx parent =
     (if length p \<le> l then Inl PanicIndexOutOfRange
      else let sibIdx = getSiblingIdx currentIdx;
               sibling = p ! l;
               parent' =
                 (if data sibling = replicate digestBytes 0
                  then truncatedHash h (data currentNode)
                  else if sibIdx smod 2 = 1 then computeNode h currentNode sibling
                  else computeNode h sibling currentNode)
           in validateLoop h p l parent' (currentIdx sdiv 2) (Some parent'))"

definition ValidateSubtree :: "sha256 \<Rightarrow> ProofData \<Rightarrow> Node \<Rightarrow> Node \<Rightarrow> error + bool" where
  "ValidateSubtree h d subtree rt =
     (case validateLoop h (path d) (nat (lvl d)) subtree (idx d) None of
        Inl e \<Rightarrow> Inl e
      | Inr None \<Rightarrow> Inl PanicNilDereference
      | Inr (Some parent) \<Rightarrow> Inr (data parent = data rt))"

definition ValidateLeaf :: "sha256 \<Rightarrow> ProofData \<Rightarrow> byte list \<Rightarrow> Node \<Rightarrow> error + bool" where
  "ValidateLeaf h d bs rt = ValidateSubtree h d (truncatedHash h bs) rt"

section \<open>Inclusion verifier\<close>

text \<open>
  \<open>ComputeExpectedAuxData\<close> calls into packages whose code is not part of the sources at
  hand: the CID codec, the index-entry constructor, and the methods \<open>ComputeRoot\<close>,
  \<open>Depth\<close> and \<open>Index\<close> of the proof type. They are the fields of a record of
  collaborators, over abstract types of CIDs \<open>'cid\<close>, proofs \<open>'p\<close>, index entries \<open>'en\<close>
  and error values \<open>'e\<close>. A Go result \<open>(value, err)\<close> is a pair whose second component
  is \<open>None\<close> for \<open>err == nil\<close>; a pointer result is an \<open>option\<close>, \<open>None\<close> for nil.
  \<open>abi.PaddedPieceSize\<close> is \<open>uint64\<close>.
\<close>

record 'cid InclusionVerifierData =
  CommPc :: 'cid
  SizePc :: "64 word"

record 'cid InclusionAuxData =
  CommPa :: 'cid
  SizePa :: "64 word"

record 'p InclusionProof =
  ProofSubtree :: 'p
  ProofIndex :: 'p

record ('cid, 'p, 'en, 'e) Collaborators =
  CIDToPieceCommitmentV1 :: "'cid \<Rightarrow> byte list \<times> 'e option"
  ComputeRoot :: "'p \<Rightarrow> Node \<Rightarrow> Node option \<times> 'e option"
  ProofDepth :: "'p \<Rightarrow> int"
  Index :: "'p \<Rightarrow> 64 word"
  MakeDataSegmentIndexEntry :: "Node \<Rightarrow> 64 word \<Rightarrow> 64 word \<Rightarrow> 'en \<times> 'e option"
  SerializeFr32 :: "'en \<Rightarrow> byte list"
  PieceCommitmentV1ToCID :: "byte list \<Rightarrow> 'cid \<times> 'e option"

text \<open>
  The error returns of \<open>ComputeExpectedAuxData\<close>, in the order of its \<open>xerrors.Errorf\<close>
  calls (those built with \<open>%w\<close> wrap the collaborator's error), and the panics it can
  reach: converting a slice shorter than 32 bytes to a node pointer, shifting by a
  negative count, dereferencing a nil node pointer.
\<close>

datatype 'e auxError =
    InvalidPieceCommitment 'e
  | SubtreeProofInvalid 'e
  | IndexEntryInvalid 'e
  | CommitmentMismatch
  | SizeMismatch
  | CIDConversionFailed 'e
  | AuxPanicSliceConversion
  | AuxPanicNegativeShift
  | AuxPanicNilDereference

text \<open>
  Modelled from the spec: the constant \<open>BytesInNode\<close> is declared outside the sources at
  hand; an index entry is 64 bytes, two nodes wide.
\<close>

definition BytesInNode :: "64 word" where
  "BytesInNode = 32"

definition BytesInDataSegmentIndexEntry :: "64 word" where
  "BytesInDataSegmentIndexEntry = 2 * BytesInNode"

definition ComputeExpectedAuxData ::
  "sha256 \<Rightarrow> ('cid, 'p, 'en, 'e) Collaborators \<Rightarrow> 'p InclusionProof
     \<Rightarrow> 'cid InclusionVerifierData \<Rightarrow> 'e auxError + 'cid InclusionAuxData" where
  "ComputeExpectedAuxData h c ip veriferData =
     (case CIDToPieceCommitmentV1 c (CommPc veriferData) of
        (commPc, Some err) \<Rightarrow> Inl (InvalidPieceCommitment err)
      | (commPc, None) \<Rightarrow>
        if length commPc < digestBytes then Inl AuxPanicSliceConversion
        else
          let nodeCommPc = Node (take digestBytes commPc)
          in (case ComputeRoot c (ProofSubtree ip) nodeCommPc of
                (assumedCommPa, Some err) \<Rightarrow> Inl (SubtreeProofInvalid err)
              | (assumedCommPa, None) \<Rightarrow>
                if ProofDepth c (ProofSubtree ip) < 0 then Inl AuxPanicNegativeShift
                else
                  let assumedSizePa =
                        push_bit (nat (ProofDepth c (ProofSubtree ip))) 1 * SizePc veriferData;
                      dataOffset = Index c (ProofSubtree ip) * SizePc veriferData
                  in (case MakeDataSegmentIndexEntry c nodeCommPc dataOffset
                             (SizePc veriferData) of
                        (en, Some err) \<Rightarrow> Inl (IndexEntryInvalid err)
                      | (en, None) \<Rightarrow>
                        let enNode = truncatedHash h (SerializeFr32 c en)
                        in (case ComputeRoot c (ProofIndex ip) enNode of
                              (assumedCommPa2, err) \<Rightarrow>
                                (case (assumedCommPa2, assumedCommPa) of
                                   (Some n2, Some n1) \<Rightarrow>
                                     if n2 \<noteq> n1 then Inl CommitmentMismatch
                                     else if ProofDepth c (ProofIndex ip) < 0
                                     then Inl AuxPanicNegativeShift
                                     else
                                       let assumedSizePa2 =
                                             push_bit (nat (ProofDepth c (ProofIndex ip))) 1
                                               * BytesInDataSegmentIndexEntry
                                       in if assumedSizePa2 \<noteq> assumedSizePa
                                          then Inl SizeMismatch
                                          else (case PieceCommitmentV1ToCID c (data n1) of
                                                  (cidPa, Some err) \<Rightarrow>
                                                    Inl (CIDConversionFailed err)
                                                | (cidPa, None) \<Rightarrow>
                                                    Inr \<lparr>CommPa = cidPa,
                                                         SizePa = assumedSizePa\<rparr>)
                                 | _ \<Rightarrow> Inl AuxPanicNilDereference)))))"

text \<open>
  A stand-in for the collaborators, to run the verifier on concrete inputs: a CID is the
  raw commitment, a proof is its depth, its index and the result its replay returns, an
  index entry is the commitment followed by the offset and the size as single bytes.
\<close>

type_synonym stubProof = "int \<times> 64 word \<times> Node option \<times> unit option"

definition stubCollaborators :: "(byte list, stubProof, byte list, unit) Collaborators" where
  "stubCollaborators =
     \<lparr>CIDToPieceCommitmentV1 = (\<lambda>cid. (cid, None)),
      ComputeRoot = (\<lambda>(d, i, r) n. r),
      ProofDepth = (\<lambda>(d, i, r). d),
      Index = (\<lambda>(d, i, r). i),
      MakeDataSegmentIndexEntry = (\<lambda>n off sz. (data n @ [ucast off, ucast sz], None)),
      SerializeFr32 = (\<lambda>en. en),
      PieceCommitmentV1ToCID = (\<lambda>bs. (bs, None))\<rparr>"

text \<open>
  A small digest to run the definitions on concrete inputs: a 32-byte string whose first
  byte is a checksum of the input and whose last byte is 1.
\<close>

definition toySha :: sha256 where
  "toySha bs = (fold (+) bs 1) # replicate 30 0 @ [1]"

section \<open>The rows built by one pass of the outer loop\<close>

lemma halfCeil_eq: "halfCeil n = (n + 1) div 2"
  by (simp add: halfCeil_def) presburger

lemma levelLoop_length: "length (levelLoop h pre i cur) = length cur"
  by (induction h pre i cur rule: levelLoop.induct) (subst levelLoop.simps, simp)

lemma levelLoop_nth:
  "even i \<Longrightarrow> k < length cur \<Longrightarrow>
   levelLoop h pre i cur ! k =
     (if i div 2 \<le> k \<and> 2 * k + 1 < length pre
      then computeNode h (pre ! (2 * k)) (pre ! (2 * k + 1)) else cur ! k)"
proof (induction h pre i cur rule: levelLoop.induct)
  case (1 h preLevel i currentLevel)
  show ?case
  proof (cases "i + 1 < length preLevel")
    case True
    let ?c = "computeNode h (preLevel ! i) (preLevel ! (i + 1))"
    have ih: "levelLoop h preLevel (i + 2) (currentLevel[i div 2 := ?c]) ! k =
       (if (i + 2) div 2 \<le> k \<and> 2 * k + 1 < length preLevel
        then computeNode h (preLevel ! (2 * k)) (preLevel ! (2 * k + 1))
        else currentLevel[i div 2 := ?c] ! k)"
      using "1.IH"[OF True] "1.prems" by simp
    have i2: "2 * (i div 2) = i" using "1.prems"(1) by simp
    show ?thesis
    proof (cases "k = i div 2")
      case True
      then show ?thesis
        using ih \<open>i + 1 < length preLevel\<close> "1.prems" i2
        by (subst levelLoop.simps) simp
    next
      case False
      then show ?thesis
        using ih \<open>i + 1 < length preLevel\<close> "1.prems"
        by (subst levelLoop.simps) auto
    qed
  next
    case False
    have "\<not> (i div 2 \<le> k \<and> 2 * k + 1 < length preLevel)"
      using False "1.prems"(1) by auto
    then show ?thesis using False by (subst levelLoop.simps) auto
  qed
qed

lemma growLevel_length: "length (growLevel h pre) = halfCeil (length pre)"
  by (simp add: growLevel_def Let_def levelLoop_length)

lemma growLevel_pair:
  assumes "2 * k + 1 < length pre"
  shows "growLevel h pre ! k = computeNode h (pre ! (2 * k)) (pre ! (2 * k + 1))"
proof -
  have k: "k < halfCeil (length pre)" using assms by (simp add: halfCeil_eq)
  have ne: "k \<noteq> halfCeil (length pre) - 1" if "odd (length pre)"
    using assms that by (auto simp: halfCeil_eq elim!: oddE)
  show ?thesis
    using assms k ne by (auto simp: growLevel_def Let_def levelLoop_nth levelLoop_length odd_iff_mod_2_eq_one)
qed

lemma growLevel_lone:
  assumes "odd (length pre)"
  shows "growLevel h pre ! (length pre div 2) = truncatedHash h (data (pre ! (length pre - 1)))"
proof -
  have "halfCeil (length pre) - 1 = length pre div 2"
    using assms by (auto simp: halfCeil_eq elim!: oddE)
  moreover have "length pre div 2 < halfCeil (length pre)"
    using assms by (auto simp: halfCeil_eq elim!: oddE)
  ultimately show ?thesis
    using assms by (simp add: growLevel_def Let_def levelLoop_length odd_iff_mod_2_eq_one)
qed

lemma growLevel_Nil: "growLevel h [] = []"
  using growLevel_length[of h "[]"] by (simp add: halfCeil_def)

lemma growLevel_single: "growLevel h [a] = [truncatedHash h (data a)]"
proof -
  have "length (growLevel h [a]) = 1" by (simp add: growLevel_length halfCeil_def)
  moreover have "growLevel h [a] ! 0 = truncatedHash h (data a)"
    using growLevel_lone[of "[a]" h] by simp
  ultimately show ?thesis by (cases "growLevel h [a]") auto
qed

lemma growLevel_Cons2: "growLevel h (a # b # xs) = computeNode h a b # growLevel h xs"
proof (rule nth_equalityI)
  show "length (growLevel h (a # b # xs)) = length (computeNode h a b # growLevel h xs)"
    by (simp add: growLevel_length halfCeil_eq)
next
  fix i assume i: "i < length (growLevel h (a # b # xs))"
  then have i': "i < Suc (halfCeil (length xs))" by (simp add: growLevel_length halfCeil_eq)
  show "growLevel h (a # b # xs) ! i = (computeNode h a b # growLevel h xs) ! i"
  proof (cases i)
    case 0
    then show ?thesis using growLevel_pair[of 0 "a # b # xs" h] by simp
  next
    case (Suc j)
    then have j: "j < halfCeil (length xs)" using i' by simp
    show ?thesis
    proof (cases "2 * j + 1 < length xs")
      case True
      then show ?thesis
        using growLevel_pair[of "Suc j" "a # b # xs" h] growLevel_pair[of j xs h] Suc by simp
    next
      case False
      then have od: "odd (length xs)" and jj: "j = length xs div 2"
        using j by (auto simp: halfCeil_eq elim!: evenE oddE)
      then show ?thesis
        using growLevel_lone[of "a # b # xs" h] growLevel_lone[of xs h] Suc
        by (cases xs) (auto elim!: oddE)
    qed
  qed
qed

section \<open>\<open>log2Ceil\<close> computes the ceiling of the binary logarithm\<close>

lemma mask_test:
  fixes v :: int
  assumes "0 \<le> v" "v < 2 ^ (2 * j)" "2 * j \<le> 64"
  shows "((word_of_int v :: 64 word) AND push_bit j (mask j) = 0) \<longleftrightarrow> v < 2 ^ j"
proof -
  have hi: "\<not> bit v n" if "2 * j \<le> n" for n
  proof -
    have "(2::int) ^ (2 * j) \<le> 2 ^ n" using that by (intro power_increasing) simp_all
    then have "v < 2 ^ n" using assms(2) by linarith
    then show ?thesis using assms(1)
      by (simp add: bit_iff_odd)
  qed
  have "v < 2 ^ j \<longleftrightarrow> drop_bit j v = 0"
    using assms(1) by (auto simp: drop_bit_eq_div zdiv_eq_0_iff)
  also have "\<dots> \<longleftrightarrow> (\<forall>n. \<not> bit v (j + n))"
    by (simp add: bit_eq_iff bit_simps add.commute)
  also have "\<dots> \<longleftrightarrow> (\<forall>n. j \<le> n \<and> n < 2 * j \<longrightarrow> \<not> bit v n)"
  proof (intro iffI allI impI)
    fix n assume a: "\<forall>n. \<not> bit v (j + n)" and "j \<le> n \<and> n < 2 * j"
    then show "\<not> bit v n" using a[rule_format, of "n - j"] by simp
  next
    fix n assume a: "\<forall>n. j \<le> n \<and> n < 2 * j \<longrightarrow> \<not> bit v n"
    show "\<not> bit v (j + n)"
      using a[rule_format, of "j + n"] hi[of "j + n"] by (cases "j + n < 2 * j") simp_all
  qed
  also have "\<dots> \<longleftrightarrow> ((word_of_int v :: 64 word) AND push_bit j (mask j) = 0)"
  proof -
    have eq: "bit ((word_of_int v :: 64 word) AND push_bit j (mask j)) n
                \<longleftrightarrow> n < 64 \<and> j \<le> n \<and> n < 2 * j \<and> bit v n" for n
      by (auto simp: bit_simps)
    have "n < 2 * j \<Longrightarrow> n < 64" for n using assms(3) by simp
    then show ?thesis by (auto simp: bit_eq_iff eq)
  qed
  finally show ?thesis by simp
qed

lemma pow2_test_nat:
  "0 < n \<Longrightarrow> (int n AND (int n - 1) = 0) \<longleftrightarrow> (\<exists>k. n = 2 ^ k)"
proof (induction n rule: less_induct)
  case (less n)
  show ?case
  proof (cases "even n")
    case True
    then obtain w where w: "n = 2 * w" by (elim evenE)
    with less.prems have wpos: "0 < w" by simp
    have "(2 * int w - 1) div 2 = int w - 1" by presburger
    then have "int n AND (int n - 1) = 2 * (int w AND (int w - 1))"
      by (subst and_int_rec) (simp add: w)
    moreover have "(\<exists>k. n = 2 ^ k) \<longleftrightarrow> (\<exists>k. w = 2 ^ k)"
    proof
      assume "\<exists>k. n = 2 ^ k"
      then obtain k where k: "n = 2 ^ k" by blast
      with w wpos have "k \<noteq> 0" by (cases k) auto
      then obtain k' where "k = Suc k'" by (cases k) auto
      with k w show "\<exists>k. w = 2 ^ k" by auto
    next
      assume "\<exists>k. w = 2 ^ k"
      then obtain k where "w = 2 ^ k" by blast
      then have "n = 2 ^ Suc k" using w by simp
      then show "\<exists>k. n = 2 ^ k" by blast
    qed
    moreover have "(int w AND (int w - 1) = 0) \<longleftrightarrow> (\<exists>k. w = 2 ^ k)"
      using less.IH[of w] wpos w by simp
    ultimately show ?thesis by simp
  next
    case False
    then obtain w where w: "n = 2 * w + 1" by (elim oddE)
    have "int n AND (int n - 1) = 2 * int w"
      by (subst and_int_rec) (simp add: w)
    moreover have "(\<exists>k. n = 2 ^ k) \<longleftrightarrow> w = 0"
    proof
      assume "\<exists>k. n = 2 ^ k"
      then obtain k where k: "n = 2 ^ k" by blast
      have "k = 0" using k False by (cases k) auto
      then show "w = 0" using k w by simp
    next
      assume "w = 0"
      then have "n = 2 ^ 0" using w by simp
      then show "\<exists>k. n = 2 ^ k" by blast
    qed
    ultimately show ?thesis by simp
  qed
qed


lemma loop_step:
  fixes v :: int
  assumes "0 \<le> v" "v < 2 ^ (2 * j)" "2 * j \<le> 64"
  shows "log2CeilLoop (push_bit j (mask j) # ts) y v (int j) =
           (if v < 2 ^ j then log2CeilLoop ts y v (int (j div 2))
            else log2CeilLoop ts (y + int j) (v div 2 ^ j) (int (j div 2)))"
  using mask_test[OF assms]
  by (simp add: drop_bit_eq_div Let_def zdiv_int)

lemma loop_gen:
  fixes v :: int
  assumes "0 < v" "v < 2 ^ (2 ^ l)" "l \<le> 6" "0 < l \<longrightarrow> jj = int (2 ^ (l - 1))"
  shows "\<exists>s. log2CeilLoop (map (\<lambda>i. push_bit (2 ^ i) (mask (2 ^ i))) (rev [0 ..< l])) y v jj
             = y + int s \<and> 2 ^ s \<le> v \<and> v < 2 ^ Suc s"
  using assms
proof (induction l arbitrary: v y jj)
  case 0
  then have "v = 1" by simp
  then show ?case by (intro exI[of _ 0]) simp
next
  case (Suc l)
  let ?f = "\<lambda>i. push_bit (2 ^ i) (mask (2 ^ i)) :: 64 word"
  let ?ts = "map ?f (rev [0 ..< l])"
  let ?j = "2 ^ l :: nat"
  have jj: "jj = int ?j" using Suc.prems(4) by simp
  have b1: "v < 2 ^ (2 * ?j)" using Suc.prems(2) by (simp add: mult.commute)
  have "(2::nat) ^ Suc l \<le> 2 ^ 6" using Suc.prems(3) by (intro power_increasing) simp_all
  then have b2: "2 * ?j \<le> 64" by simp
  have st: "log2CeilLoop (?f l # ?ts) y v (int ?j) =
           (if v < 2 ^ ?j then log2CeilLoop ?ts y v (int (?j div 2))
            else log2CeilLoop ?ts (y + int ?j) (v div 2 ^ ?j) (int (?j div 2)))"
    using Suc.prems(1) b1 b2 by (intro loop_step) simp_all
  have j': "0 < l \<longrightarrow> int (?j div 2) = int (2 ^ (l - 1))"
    by (cases l) simp_all
  have l6: "l \<le> 6" using Suc.prems(3) by simp
  show ?case
  proof (cases "v < 2 ^ ?j")
    case True
    from Suc.IH[OF Suc.prems(1) True l6 j', of y]
    show ?thesis using st True jj by simp
  next
    case False
    let ?v = "v div 2 ^ ?j"
    have p: "(0::int) < 2 ^ ?j" by simp
    have v1: "0 < ?v" using False p by (simp add: pos_imp_zdiv_pos_iff)
    have vlt: "v < 2 ^ ?j * 2 ^ ?j" using b1 by (simp add: power_add[symmetric] mult_2)
    have dm: "2 ^ ?j * ?v \<le> v"
      using p by (metis mult_div_mod_eq pos_mod_sign le_add_same_cancel1)
    have v2: "?v < 2 ^ ?j"
    proof (rule ccontr)
      assume "\<not> ?v < 2 ^ ?j"
      then have "2 ^ ?j * 2 ^ ?j \<le> 2 ^ ?j * ?v" by (intro mult_left_mono) simp_all
      with dm \<open>v < 2 ^ ?j * 2 ^ ?j\<close> show False by linarith
    qed
    from Suc.IH[OF v1 v2 l6 j', of "y + int ?j"]
    obtain s where s: "log2CeilLoop ?ts (y + int ?j) ?v (int (?j div 2)) = y + int ?j + int s"
      "2 ^ s \<le> ?v" "?v < 2 ^ Suc s" by blast
    have lo: "2 ^ (?j + s) \<le> v"
    proof -
      have "2 ^ ?j * 2 ^ s \<le> 2 ^ ?j * ?v" using s(2) by simp
      also have "\<dots> \<le> v" by (rule dm)
      finally show ?thesis by (simp add: power_add)
    qed
    have hi: "v < 2 ^ Suc (?j + s)"
    proof -
      have "?v + 1 \<le> 2 ^ Suc s" using s(3) by simp
      then have "2 ^ ?j * (?v + 1) \<le> 2 ^ ?j * 2 ^ Suc s" by (intro mult_left_mono) simp_all
      moreover have "v < 2 ^ ?j * (?v + 1)"
        using p by (metis add.commute distrib_left mult.right_neutral pos_mod_bound mult_div_mod_eq add_strict_left_mono)
      ultimately have "v < 2 ^ ?j * 2 ^ Suc s" by linarith
      then show ?thesis by (simp add: power_add)
    qed
    show ?thesis
      using st False jj s(1) lo hi
      by (intro exI[of _ "?j + s"]) simp
  qed
qed

lemma tab64_eq: "tab64 = map (\<lambda>i. push_bit (2 ^ i) (mask (2 ^ i))) (rev [0 ..< 6])"
  by (simp add: tab64_def upt_rec mask_eq_exp_minus_1)

lemma log2Ceil_spec:
  assumes "0 < n" "n < 2 ^ 64"
  shows "\<exists>d. log2Ceil (int n) = int d \<and> n \<le> 2 ^ d \<and> (d = 0 \<or> 2 ^ (d - 1) < n)"
proof -
  have v: "0 < int n" "int n < 2 ^ (2 ^ 6)" using assms by simp_all
  have "\<exists>s. log2CeilLoop tab64 y (int n) 32 = y + int s \<and> 2 ^ s \<le> int n \<and> int n < 2 ^ Suc s" for y
    using loop_gen[OF v, of 32 y] by (simp add: tab64_eq)
  then obtain s0 s1 where s0: "log2CeilLoop tab64 0 (int n) 32 = 0 + int s0" "2 ^ s0 \<le> int n" "int n < 2 ^ Suc s0"
    and s1: "log2CeilLoop tab64 1 (int n) 32 = 1 + int s1" "2 ^ s1 \<le> int n" "int n < 2 ^ Suc s1"
    by metis
  have n0: "2 ^ s0 \<le> n" "n < 2 ^ Suc s0"
    using s0(2,3) by (metis of_nat_le_iff of_nat_numeral of_nat_power, metis of_nat_less_iff of_nat_numeral of_nat_power)
  have n1: "2 ^ s1 \<le> n" "n < 2 ^ Suc s1"
    using s1(2,3) by (metis of_nat_le_iff of_nat_numeral of_nat_power, metis of_nat_less_iff of_nat_numeral of_nat_power)
  show ?thesis
  proof (cases "\<exists>k. n = 2 ^ k")
    case True
    then obtain k where k: "n = 2 ^ k" by blast
    have "s0 = k"
    proof -
      have "s0 \<le> k" using n0(1) k by simp
      moreover have "(2::nat) ^ k < 2 ^ Suc s0" using n0(2) k by simp
      then have "k < Suc s0" by (simp only: power_strict_increasing_iff one_less_numeral_iff semiring_norm)
      ultimately show ?thesis by simp
    qed
    moreover have "log2Ceil (int n) = int s0"
      using True pow2_test_nat[OF assms(1)] s0(1) by (simp add: log2Ceil_def)
    ultimately show ?thesis using k by (intro exI[of _ k]) (cases k, simp_all)
  next
    case False
    have "log2Ceil (int n) = int (Suc s1)"
      using False pow2_test_nat[OF assms(1)] s1(1) by (simp add: log2Ceil_def)
    moreover have "2 ^ s1 < n" using n1(1) False by (metis le_neq_implies_less)
    ultimately show ?thesis using n1(2) by (intro exI[of _ "Suc s1"]) simp
  qed
qed

lemma log2Ceil_nonneg_loop: "0 \<le> y \<Longrightarrow> 0 \<le> j \<Longrightarrow> 0 \<le> log2CeilLoop ts y v j"
  by (induction ts arbitrary: y v j) (simp_all add: Let_def drop_bit_eq_div pos_imp_zdiv_nonneg_iff)

lemma log2Ceil_nonneg: "0 \<le> log2Ceil v"
  by (simp add: log2Ceil_def log2Ceil_nonneg_loop)

lemma ceil_log2_char:
  assumes "0 < n" "n \<le> 2 ^ d" "d = 0 \<or> 2 ^ (d - 1) < n"
  shows "\<lceil>log 2 (real n)\<rceil> = int d"
proof (cases d)
  case 0
  then have "n = 1" using assms by simp
  then show ?thesis using 0 by simp
next
  case (Suc d')
  have "real d' < log 2 (real n)"
    using assms(3) Suc by (intro less_log2_of_power) simp
  moreover have "log 2 (real n) \<le> real d"
    using assms(1,2) by (intro log2_of_power_le) simp_all
  ultimately show ?thesis using Suc by (intro ceiling_unique) simp_all
qed

lemma log2Ceil_1: "log2Ceil 1 = 0"
  by (simp add: log2Ceil_def tab64_def)

lemma log2Ceil_4: "log2Ceil 4 = 2"
  by (simp add: log2Ceil_def tab64_def)

section \<open>Indices and the shape of a grown tree\<close>

lemma smod2_nat: "int c smod 2 = int (c mod 2)"
  by (simp add: smod_int_alt_def sgn_if zmod_int)

lemma sdiv2_nat: "int c sdiv 2 = int (c div 2)"
  by (simp add: signed_divide_int_def sgn_if zdiv_int)

lemma getSiblingIdx_nat:
  "getSiblingIdx (int c) = (if even c then int (c + 1) else int (c - 1))"
  by (auto simp: getSiblingIdx_def smod2_nat elim!: oddE)

lemma getSiblingIdx_smod:
  "getSiblingIdx (int c) smod 2 = 1 \<longleftrightarrow> even c"
proof (cases "even c")
  case True
  then have "(c + 1) mod 2 = 1" by presburger
  then show ?thesis using True smod2_nat[of "c + 1"] by (simp add: getSiblingIdx_nat)
next
  case False
  then have "(c - 1) mod 2 = 0" by presburger
  then show ?thesis using False smod2_nat[of "c - 1"] by (simp add: getSiblingIdx_nat)
qed

lemma growLoop_length: "length (growLoop h k pre ns) = length ns"
  by (induction k arbitrary: pre ns) (simp_all add: Let_def)

lemma growLoop_nth:
  "k \<le> length ns \<Longrightarrow>
   growLoop h k pre ns ! l = (if l < k then (growLevel h ^^ (k - l)) pre else ns ! l)"
proof (induction k arbitrary: pre ns)
  case 0
  then show ?case by simp
next
  case (Suc k)
  have "growLoop h (Suc k) pre ns ! l =
          (if l < k then (growLevel h ^^ (k - l)) (growLevel h pre)
           else (ns[k := growLevel h pre]) ! l)"
    using Suc.IH[of "ns[k := growLevel h pre]" "growLevel h pre"] Suc.prems
    by (simp add: Let_def)
  also have "\<dots> = (if l < Suc k then (growLevel h ^^ (Suc k - l)) pre else ns ! l)"
  proof (cases "l < k")
    case True
    then have "Suc k - l = Suc (k - l)" by simp
    then show ?thesis using True by (simp add: funpow_swap1)
  next
    case False
    then show ?thesis using Suc.prems by (cases "l = k") simp_all
  qed
  finally show ?case .
qed

lemma growTree_nodes:
  fixes leafs :: "Node list"
  defines "tp \<equiv> nat (log2Ceil (int (length leafs)))"
  shows "length (nodes (growTreeHashedLeafs h leafs)) = Suc tp"
    and "l \<le> tp \<Longrightarrow> nodes (growTreeHashedLeafs h leafs) ! l = (growLevel h ^^ (tp - l)) leafs"
proof -
  have n: "nat (1 + log2Ceil (int (length leafs))) = Suc tp"
    using log2Ceil_nonneg[of "int (length leafs)"] by (simp add: tp_def)
  show len: "length (nodes (growTreeHashedLeafs h leafs)) = Suc tp"
    by (simp add: growTreeHashedLeafs_def NewBareTree_def Let_def growLoop_length n tp_def[symmetric])
  assume "l \<le> tp"
  then show "nodes (growTreeHashedLeafs h leafs) ! l = (growLevel h ^^ (tp - l)) leafs"
    by (simp add: growTreeHashedLeafs_def NewBareTree_def Let_def growLoop_nth n tp_def[symmetric])
qed

lemma growTree_step:
  assumes "Suc l < length (nodes (growTreeHashedLeafs h leafs))"
  shows "nodes (growTreeHashedLeafs h leafs) ! l
           = growLevel h (nodes (growTreeHashedLeafs h leafs) ! Suc l)"
proof -
  let ?top = "nat (log2Ceil (int (length leafs)))"
  have l: "Suc l \<le> ?top" using assms by (simp add: growTree_nodes(1))
  then have "?top - l = Suc (?top - Suc l)" by simp
  then show ?thesis using l by (simp add: growTree_nodes(2))
qed

lemma halfCeil_funpow: "(halfCeil ^^ k) n = (n + 2 ^ k - 1) div 2 ^ k"
proof (induction k)
  case 0
  then show ?case by simp
next
  case (Suc k)
  let ?m = "n + 2 ^ k - 1"
  have a: "(?m + 2 ^ k) div 2 ^ k = ?m div 2 ^ k + 1" by simp
  have "(halfCeil ^^ Suc k) n = halfCeil (?m div 2 ^ k)"
    using Suc by simp
  also have "\<dots> = (?m div 2 ^ k + 1) div 2"
    by (simp only: halfCeil_eq)
  also have "\<dots> = ((?m + 2 ^ k) div 2 ^ k) div 2"
    by (simp only: a)
  also have "\<dots> = (?m + 2 ^ k) div (2 ^ k * 2)"
    by (simp only: div_mult2_eq)
  also have "?m + 2 ^ k = n + 2 ^ Suc k - 1"
    by simp
  also have "(2::nat) ^ k * 2 = 2 ^ Suc k"
    by simp
  finally show ?case .
qed

lemma growLevel_funpow_length:
  "length ((growLevel h ^^ k) xs) = (halfCeil ^^ k) (length xs)"
  by (induction k) (simp_all add: growLevel_length)

section \<open>Proof extraction and validation, level by level\<close>

lemma validateLoop_total:
  "l \<le> length p \<Longrightarrow> \<exists>r. validateLoop h p l cur ci par = Inr r \<and> (0 < l \<longrightarrow> r \<noteq> None)"
proof (induction l arbitrary: cur ci par)
  case 0
  then show ?case by simp
next
  case (Suc l)
  let ?parent = "(if data (p ! l) = replicate digestBytes 0 then truncatedHash h (data cur)
                  else if getSiblingIdx ci smod 2 = 1 then computeNode h cur (p ! l)
                  else computeNode h (p ! l) cur)"
  have l: "l \<le> length p" "\<not> length p \<le> l" using Suc.prems by simp_all
  obtain r where r: "validateLoop h p l ?parent (ci sdiv 2) (Some ?parent) = Inr r"
      "0 < l \<longrightarrow> r \<noteq> None"
    using Suc.IH[OF l(1)] by blast
  have "r \<noteq> None" using r by (cases l) auto
  then show ?case using r l by (simp add: Let_def)
qed

lemma sibling_nat:
  "nat (getSiblingIdx (int c)) = (if even c then c + 1 else c - 1)"
  by (simp only: getSiblingIdx_nat nat_int split: if_splits) blast

lemma sibling_less:
  "getSiblingIdx (int c) < int n \<longleftrightarrow> (if even c then c + 1 else c - 1) < n"
  by (simp only: getSiblingIdx_nat of_nat_less_iff split: if_splits) blast

lemma data_zero: "data x = replicate digestBytes 0 \<longleftrightarrow> x = zeroNode"
  by (cases x) (simp add: zeroNode_def)

lemma parent_step:
  assumes c: "c < length row"
      and nz: "getSiblingIdx (int c) < int (length row) \<Longrightarrow> row ! nat (getSiblingIdx (int c)) \<noteq> zeroNode"
  shows "(if data (siblingEntry row c) = replicate digestBytes 0
          then truncatedHash h (data (row ! c))
          else if getSiblingIdx (int c) smod 2 = 1 then computeNode h (row ! c) (siblingEntry row c)
          else computeNode h (siblingEntry row c) (row ! c))
         = growLevel h row ! (c div 2)"
proof (cases "even c")
  case True
  then have c2: "2 * (c div 2) = c" by simp
  show ?thesis
  proof (cases "c + 1 < length row")
    case True
    then have "siblingEntry row c = row ! (c + 1)" "row ! (c + 1) \<noteq> zeroNode"
      using nz \<open>even c\<close> by (simp_all add: siblingEntry_def sibling_nat sibling_less)
    moreover have "growLevel h row ! (c div 2) = computeNode h (row ! c) (row ! (c + 1))"
      using growLevel_pair[of "c div 2" row h] True c2 by simp
    ultimately show ?thesis using \<open>even c\<close> by (simp add: data_zero getSiblingIdx_smod)
  next
    case False
    then have len: "length row = c + 1" using c by simp
    then have "odd (length row)" using \<open>even c\<close> by simp
    then have "growLevel h row ! (length row div 2) = truncatedHash h (data (row ! (length row - 1)))"
      by (rule growLevel_lone)
    moreover have "length row div 2 = c div 2" using len \<open>even c\<close> by simp
    moreover have "siblingEntry row c = zeroNode"
      using False \<open>even c\<close> by (simp add: siblingEntry_def sibling_nat sibling_less)
    ultimately show ?thesis using len by (simp add: data_zero)
  qed
next
  case False
  then have c1: "c - 1 < length row" "2 * (c div 2) = c - 1" "2 * (c div 2) + 1 = c"
    using c by (auto elim!: oddE)
  have "siblingEntry row c = row ! (c - 1)" "row ! (c - 1) \<noteq> zeroNode"
    using nz c1(1) False by (simp_all add: siblingEntry_def sibling_nat sibling_less)
  moreover have "growLevel h row ! (c div 2) = computeNode h (row ! (c - 1)) (row ! c)"
    using growLevel_pair[of "c div 2" row h] c c1 by simp
  ultimately show ?thesis using False by (simp add: data_zero getSiblingIdx_smod)
qed

lemma half_in_range: "c < n \<Longrightarrow> c div 2 < halfCeil n"
  by (simp add: halfCeil_eq)

lemma proofLoop_ok:
  assumes "\<forall>k<l. length (nodes d ! k) = halfCeil (length (nodes d ! Suc k))"
      and "l = 0 \<or> c < length (nodes d ! l)"
  shows "\<exists>p. proofLoop d l (int c) pf = Inr p \<and> length p = length pf
           \<and> (\<forall>k<length pf. p ! k =
                 (if k < l \<and> getSiblingIdx (int (c div 2 ^ (l - Suc k))) < int (length (nodes d ! Suc k))
                  then nodes d ! Suc k ! nat (getSiblingIdx (int (c div 2 ^ (l - Suc k))))
                  else pf ! k))"
  using assms
proof (induction l arbitrary: c pf)
  case 0
  then show ?case by simp
next
  case (Suc l)
  let ?row = "nodes d ! Suc l"
  let ?pf = "(if int (length ?row) > getSiblingIdx (int c)
                 then pf[l := ?row ! nat (getSiblingIdx (int c))] else pf)"
  have c: "c < length ?row" using Suc.prems(2) by simp
  have rows: "\<forall>k<l. length (nodes d ! k) = halfCeil (length (nodes d ! Suc k))"
    using Suc.prems(1) by simp
  have "length (nodes d ! l) = halfCeil (length ?row)" using Suc.prems(1) by simp
  then have c2: "l = 0 \<or> c div 2 < length (nodes d ! l)" using half_in_range[OF c] by simp
  obtain p where p: "proofLoop d l (int (c div 2)) ?pf = Inr p" "length p = length ?pf"
     "\<forall>k<length ?pf. p ! k =
                 (if k < l \<and> getSiblingIdx (int (c div 2 div 2 ^ (l - Suc k))) < int (length (nodes d ! Suc k))
                  then nodes d ! Suc k ! nat (getSiblingIdx (int (c div 2 div 2 ^ (l - Suc k))))
                  else ?pf ! k)"
    using Suc.IH[OF rows c2, of ?pf] by blast
  have run: "proofLoop d (Suc l) (int c) pf = Inr p"
    using c p(1) by (simp add: Let_def sdiv2_nat)
  have len: "length p = length pf" using p(2) by simp
  have ent: "p ! k =
        (if k < Suc l \<and> getSiblingIdx (int (c div 2 ^ (Suc l - Suc k))) < int (length (nodes d ! Suc k))
         then nodes d ! Suc k ! nat (getSiblingIdx (int (c div 2 ^ (Suc l - Suc k))))
         else pf ! k)" if k: "k < length pf" for k
  proof -
    have pk: "p ! k =
                 (if k < l \<and> getSiblingIdx (int (c div 2 div 2 ^ (l - Suc k))) < int (length (nodes d ! Suc k))
                  then nodes d ! Suc k ! nat (getSiblingIdx (int (c div 2 div 2 ^ (l - Suc k))))
                  else ?pf ! k)"
      using p(3) k by simp
    show ?thesis
    proof (cases "k < l")
      case True
      then have "Suc l - Suc k = Suc (l - Suc k)" by simp
      then have "c div 2 ^ (Suc l - Suc k) = c div 2 div 2 ^ (l - Suc k)"
        by (simp add: div_mult2_eq)
      then show ?thesis using pk True by auto
    next
      case False
      then show ?thesis using pk k by (cases "k = l") auto
    qed
  qed
  show ?case using run len ent by blast
qed

lemma walk_index:
  assumes "\<forall>k<l. length (nodes d ! k) = halfCeil (length (nodes d ! Suc k))"
      and "c < length (nodes d ! l)"
  shows "c div 2 ^ l < length (nodes d ! 0)"
  using assms
proof (induction l arbitrary: c)
  case 0
  then show ?case by simp
next
  case (Suc l)
  have "c div 2 < length (nodes d ! l)"
    using Suc.prems half_in_range[of c "length (nodes d ! Suc l)"] by simp
  moreover have "\<forall>k<l. length (nodes d ! k) = halfCeil (length (nodes d ! Suc k))"
    using Suc.prems(1) by simp
  ultimately have "c div 2 div 2 ^ l < length (nodes d ! 0)" by (rule Suc.IH[rotated])
  then show ?case by (simp add: div_mult2_eq)
qed

lemma validateLoop_walk:
  assumes "\<forall>k<l. nodes d ! k = growLevel h (nodes d ! Suc k)"
      and "c < length (nodes d ! l)"
      and "l \<le> length p"
      and "\<forall>k<l. p ! k = siblingEntry (nodes d ! Suc k) (c div 2 ^ (l - Suc k))"
      and "\<forall>k<l. zeroNode \<notin> set (nodes d ! Suc k)"
      and "0 < l"
  shows "validateLoop h p l (nodes d ! l ! c) (int c) par = Inr (Some (nodes d ! 0 ! (c div 2 ^ l)))"
  using assms
proof (induction l arbitrary: c par)
  case 0
  then show ?case by simp
next
  case (Suc l)
  let ?row = "nodes d ! Suc l"
  have c: "c < length ?row" using Suc.prems(2) .
  have sib: "p ! l = siblingEntry ?row c" using Suc.prems(4) by simp
  have nz: "row ! nat (getSiblingIdx (int c)) \<noteq> zeroNode"
    if "getSiblingIdx (int c) < int (length row)" "row = ?row" for row
  proof -
    have "nat (getSiblingIdx (int c)) < length ?row"
      using that by (simp add: sibling_nat sibling_less)
    then have "?row ! nat (getSiblingIdx (int c)) \<in> set ?row" by (rule nth_mem)
    then show ?thesis using Suc.prems(5) that(2) by auto
  qed
  let ?parent = "growLevel h ?row ! (c div 2)"
  have par: "(if data (p ! l) = replicate digestBytes 0
          then truncatedHash h (data (?row ! c))
          else if getSiblingIdx (int c) smod 2 = 1 then computeNode h (?row ! c) (p ! l)
          else computeNode h (p ! l) (?row ! c)) = ?parent"
    unfolding sib by (rule parent_step[OF c]) (rule nz, simp_all)
  have rowl: "nodes d ! l = growLevel h ?row" using Suc.prems(1) by simp
  have step: "validateLoop h p (Suc l) (?row ! c) (int c) par
        = validateLoop h p l ?parent (int (c div 2)) (Some ?parent)"
    using Suc.prems(3) par by (simp add: Let_def sdiv2_nat)
  show ?case
  proof (cases l)
    case 0
    then show ?thesis using step rowl by simp
  next
    case (Suc l')
    have "validateLoop h p l (nodes d ! l ! (c div 2)) (int (c div 2)) (Some ?parent)
            = Inr (Some (nodes d ! 0 ! (c div 2 div 2 ^ l)))"
    proof (rule Suc.IH)
      show "\<forall>k<l. nodes d ! k = growLevel h (nodes d ! Suc k)" using Suc.prems(1) by simp
      show "c div 2 < length (nodes d ! l)"
        using half_in_range[OF c] rowl by (simp add: growLevel_length)
      show "l \<le> length p" using Suc.prems(3) by simp
      show "\<forall>k<l. p ! k = siblingEntry (nodes d ! Suc k) (c div 2 div 2 ^ (l - Suc k))"
      proof (intro allI impI)
        fix k assume k: "k < l"
        then have "Suc l - Suc k = Suc (l - Suc k)" by simp
        then have "c div 2 ^ (Suc l - Suc k) = c div 2 div 2 ^ (l - Suc k)"
          by (simp add: div_mult2_eq)
        then show "p ! k = siblingEntry (nodes d ! Suc k) (c div 2 div 2 ^ (l - Suc k))"
          using Suc.prems(4) k by simp
      qed
      show "\<forall>k<l. zeroNode \<notin> set (nodes d ! Suc k)" using Suc.prems(5) by simp
      show "0 < l" using Suc by simp
    qed
    then show ?thesis using step rowl by (simp add: div_mult2_eq)
  qed
qed

lemma ConstructProof_ok:
  assumes rows: "\<forall>k. Suc k < length (nodes d) \<longrightarrow> length (nodes d ! k) = halfCeil (length (nodes d ! Suc k))"
      and lv: "1 \<le> lv" "lv < Depth d"
      and ix: "0 \<le> ix" "ix < int (length (nodes d ! nat lv))"
  shows "\<exists>p. ConstructProof d lv ix = Inr \<lparr>path = p, lvl = lv, idx = ix\<rparr> \<and> length p = nat lv
           \<and> (\<forall>k<nat lv. p ! k = siblingEntry (nodes d ! Suc k) (nat ix div 2 ^ (nat lv - Suc k)))"
proof -
  let ?l = "nat lv" and ?c = "nat ix"
  have l: "?l < length (nodes d)" using lv by (simp add: Depth_def)
  have r: "\<forall>k<?l. length (nodes d ! k) = halfCeil (length (nodes d ! Suc k))"
    using rows l by simp
  have "?c < length (nodes d ! ?l)" using ix by linarith
  then have c: "?l = 0 \<or> ?c < length (nodes d ! ?l)" by simp
  obtain p where p: "proofLoop d ?l (int ?c) (replicate ?l zeroNode) = Inr p"
     "length p = length (replicate ?l zeroNode)"
     "\<forall>k<length (replicate ?l zeroNode). p ! k =
         (if k < ?l \<and> getSiblingIdx (int (?c div 2 ^ (?l - Suc k))) < int (length (nodes d ! Suc k))
          then nodes d ! Suc k ! nat (getSiblingIdx (int (?c div 2 ^ (?l - Suc k))))
          else replicate ?l zeroNode ! k)"
    using proofLoop_ok[OF r c, of "replicate ?l zeroNode"] by blast
  have "ConstructProof d lv ix = Inr \<lparr>path = p, lvl = lv, idx = ix\<rparr>"
    using lv ix p(1) by (simp add: ConstructProof_def)
  moreover have "length p = ?l" using p(2) by simp
  moreover have "\<forall>k<?l. p ! k = siblingEntry (nodes d ! Suc k) (?c div 2 ^ (?l - Suc k))"
    using p(3) by (simp add: siblingEntry_def)
  ultimately show ?thesis by blast
qed

lemma ConstructProof_fail:
  assumes "lv < 1 \<or> Depth d \<le> lv \<or> ix < 0 \<or> int (length (nodes d ! nat lv)) \<le> ix"
  shows "isl (ConstructProof d lv ix)"
proof (cases "lv < 1 \<or> Depth d \<le> lv \<or> ix < 0")
  case True
  then show ?thesis by (auto simp: ConstructProof_def)
next
  case False
  then have w: "int (length (nodes d ! nat lv)) \<le> ix" and lv: "1 \<le> lv" using assms by auto
  then obtain l where l: "nat lv = Suc l" by (cases "nat lv") auto
  have "proofLoop d (nat lv) ix (replicate (nat lv) zeroNode) = Inl IndexOutOfRange"
    using w unfolding l by (simp add: Let_def)
  then show ?thesis using False by (simp add: ConstructProof_def)
qed

lemma grown_rows:
  "Suc k < length (nodes (growTreeHashedLeafs h leafs)) \<Longrightarrow>
   length (nodes (growTreeHashedLeafs h leafs) ! k)
     = halfCeil (length (nodes (growTreeHashedLeafs h leafs) ! Suc k))"
  by (simp add: growTree_step growLevel_length)

lemma grown_shape:
  assumes "0 < length leafs" "length leafs < 2 ^ 64"
  shows "\<exists>L. length (nodes (growTreeHashedLeafs h leafs)) = Suc L
           \<and> length leafs \<le> 2 ^ L \<and> (L = 0 \<or> 2 ^ (L - 1) < length leafs)
           \<and> (\<forall>l\<le>L. nodes (growTreeHashedLeafs h leafs) ! l = (growLevel h ^^ (L - l)) leafs)
           \<and> (\<forall>l\<le>L. length (nodes (growTreeHashedLeafs h leafs) ! l)
                       = (length leafs + 2 ^ (L - l) - 1) div 2 ^ (L - l))"
proof -
  obtain L where L: "log2Ceil (int (length leafs)) = int L" "length leafs \<le> 2 ^ L"
      "L = 0 \<or> 2 ^ (L - 1) < length leafs"
    using log2Ceil_spec[OF assms] by blast
  have "nat (log2Ceil (int (length leafs))) = L" using L(1) by simp
  then show ?thesis
    using growTree_nodes[where h=h and leafs=leafs] L(2,3)
    by (intro exI[of _ L]) (simp add: growLevel_funpow_length halfCeil_funpow)
qed

lemma root_row:
  assumes "0 < length leafs" "length leafs < 2 ^ 64"
  shows "length (nodes (growTreeHashedLeafs h leafs) ! 0) = 1"
proof -
  obtain L where L: "length leafs \<le> 2 ^ L"
     "\<forall>l\<le>L. length (nodes (growTreeHashedLeafs h leafs) ! l)
                       = (length leafs + 2 ^ (L - l) - 1) div 2 ^ (L - l)"
    using grown_shape[OF assms, of h] by blast
  let ?n = "length leafs"
  have "length (nodes (growTreeHashedLeafs h leafs) ! 0) = (?n + 2 ^ L - 1) div 2 ^ L"
    using L(2) by simp
  also have "\<dots> = 1"
  proof -
    have "2 ^ L \<le> ?n + 2 ^ L - 1" "?n + 2 ^ L - 1 < 2 * 2 ^ L" using assms(1) L(1) by linarith+
    then show ?thesis
      by (metis div_nat_eqI mult.commute mult_1 mult_2 nat_mult_1_right One_nat_def Suc_1 mult_Suc_right)
  qed
  finally show ?thesis .
qed

lemma ceil_div_pow2: "nat \<lceil>real n / 2 ^ k\<rceil> = (n + 2 ^ k - 1) div 2 ^ k"
proof -
  let ?q = "(n + 2 ^ k - 1) div 2 ^ k"
  have lo: "?q * 2 ^ k \<le> n + 2 ^ k - 1" by simp
  have hi: "n + 2 ^ k - 1 < (?q + 1) * 2 ^ k"
    using dividend_less_times_div[of "2 ^ k" "n + 2 ^ k - 1"] by (simp add: mult.commute)
  have a: "n \<le> ?q * 2 ^ k" using hi by simp
  have "(0::nat) < 2 ^ k" by simp
  then have b: "?q * 2 ^ k < n + 2 ^ k" using lo by linarith
  have "real n \<le> real (?q * 2 ^ k)" using a by (simp only: of_nat_le_iff)
  then have "real n \<le> real ?q * 2 ^ k" by simp
  then have u: "real n / 2 ^ k \<le> real ?q" by (simp add: field_simps)
  have "real (?q * 2 ^ k) < real (n + 2 ^ k)" using b by (simp only: of_nat_less_iff)
  then have "real ?q * 2 ^ k < real n + 2 ^ k" by simp
  then have l: "real ?q - 1 < real n / 2 ^ k" by (simp add: field_simps)
  have "\<lceil>real n / 2 ^ k\<rceil> = int ?q" using u l by (intro ceiling_unique) simp_all
  then show ?thesis by simp
qed

section \<open>A small digest and a tree of three leaves\<close>

lemma fold_zeros: "((+) (0::byte) ^^ n) a = a"
  by (induction n) simp_all

lemma toy_trunc: "truncatedHash toySha bs = Node (fold (+) bs 1 # replicate 30 0 @ [1])"
  by (simp add: truncatedHash_def toySha_def nth_append list_update_append)

lemma toy_leaf: "truncatedHash toySha [x] = Node ((x + 1) # replicate 30 0 @ [1])"
  by (simp add: toy_trunc)

lemma toy_lone:
  "truncatedHash toySha (x # replicate 30 0 @ [1]) = Node ((x + 2) # replicate 30 0 @ [1])"
  by (simp add: toy_trunc fold_zeros)

lemma toy_pair:
  "computeNode toySha (Node (x # replicate 30 0 @ [1])) (Node (y # replicate 30 0 @ [1]))
     = Node ((x + y + 3) # replicate 30 0 @ [1])"
  by (simp add: computeNode_def toy_trunc fold_zeros)

lemma log2Ceil_3: "log2Ceil 3 = 2"
  by (simp add: log2Ceil_def tab64_def)

lemma toy_tree3:
  "nodes (growTreeHashedLeafs toySha (hashList toySha [[1], [2], [3]])) =
     [[Node (17 # replicate 30 0 @ [1])],
      [Node (8 # replicate 30 0 @ [1]), Node (6 # replicate 30 0 @ [1])],
      [Node (2 # replicate 30 0 @ [1]), Node (3 # replicate 30 0 @ [1]),
       Node (4 # replicate 30 0 @ [1])]]"
  by (simp add: growTreeHashedLeafs_def hashList_def NewBareTree_def log2Ceil_3 numeral_2_eq_2
        growLevel_Cons2 growLevel_single growLevel_Nil upt_rec toy_leaf toy_lone toy_pair)

lemma toy_nonzero: "Node (x # replicate 30 0 @ [1]) \<noteq> zeroNode"
proof
  assume "Node (x # replicate 30 0 @ [1]) = zeroNode"
  then have "last (x # replicate 30 0 @ [1]) = last (replicate digestBytes (0::byte))"
    by (simp add: zeroNode_def)
  then show False by (simp add: digestBytes_def)
qed

lemma smod_one_two: "(1::int) smod 2 = 1"
  by (simp add: signed_modulo_int_def)

lemma siblingEntry_nat:
  "siblingEntry row c =
     (if (if even c then c + 1 else c - 1) < length row
      then row ! (if even c then c + 1 else c - 1) else zeroNode)"
  by (simp only: siblingEntry_def sibling_nat sibling_less)

lemma toy_depth3: "Depth (growTreeHashedLeafs toySha (hashList toySha [[1], [2], [3]])) = 3"
  by (simp add: Depth_def toy_tree3)

section \<open>The shape of a grown tree\<close>

text \<open>
  Lengths are Go \<open>int\<close>s. Up to \<open>2^62\<close> leaves the row sizes \<open>1 << i\<close> of \<open>NewBareTree\<close>
  stay positive, and no slice in a 64-bit address space is longer.
\<close>

text \<open>
  C9. A tree grown from \<open>n \<ge> 1\<close> leaves has \<open>Depth() = \<lceil>log\<^sub>2 n\<rceil> + 1\<close> and \<open>Leafs() = n\<close>,
  and for every level \<open>l\<close> the stored row has exactly \<open>\<lceil>n / 2^(Depth - 1 - l)\<rceil>\<close> nodes.
  The loop replaces each row of \<open>NewBareTree\<close> by a slice of that length, so a stored row
  has no position beyond its width: every stored position beyond the width is the zero
  node because there is none.
\<close>

theorem grown_tree_shape:
  assumes "0 < length leafs" and "length leafs \<le> 2 ^ 62"
  shows "Depth (growTreeHashedLeafs h leafs) = \<lceil>log 2 (real (length leafs))\<rceil> + 1
       \<and> Leafs (growTreeHashedLeafs h leafs) = Inr (int (length leafs))
       \<and> (\<forall>l. int l < Depth (growTreeHashedLeafs h leafs) \<longrightarrow>
             length (nodes (growTreeHashedLeafs h leafs) ! l)
               = nat \<lceil>real (length leafs) / 2 ^ (nat (Depth (growTreeHashedLeafs h leafs)) - 1 - l)\<rceil>
           \<and> list_all (\<lambda>x. x = zeroNode)
                 (drop (nat \<lceil>real (length leafs) / 2 ^ (nat (Depth (growTreeHashedLeafs h leafs)) - 1 - l)\<rceil>)
                    (nodes (growTreeHashedLeafs h leafs) ! l)))"
proof -
  let ?t = "growTreeHashedLeafs h leafs" and ?n = "length leafs"
  have n64: "?n < 2 ^ 64"
  proof -
    have "(2::nat) ^ 62 < 2 ^ 64" by simp
    then show ?thesis using assms(2) by linarith
  qed
  obtain L where L: "length (nodes ?t) = Suc L" "?n \<le> 2 ^ L" "L = 0 \<or> 2 ^ (L - 1) < ?n"
      "\<forall>l\<le>L. nodes ?t ! l = (growLevel h ^^ (L - l)) leafs"
      "\<forall>l\<le>L. length (nodes ?t ! l) = (?n + 2 ^ (L - l) - 1) div 2 ^ (L - l)"
    using grown_shape[OF assms(1) n64, of h] by blast
  have d: "Depth ?t = int (Suc L)" using L(1) by (simp add: Depth_def)
  have "\<lceil>log 2 (real ?n)\<rceil> = int L" using assms(1) L(2,3) by (rule ceil_log2_char)
  then have depth: "Depth ?t = \<lceil>log 2 (real ?n)\<rceil> + 1" using d by simp
  have "nodes ?t \<noteq> []" using L(1) by auto
  moreover have "nodes ?t ! L = leafs" using L(4) by simp
  ultimately have leafs: "Leafs ?t = Inr (int ?n)" using L(1) by (simp add: Leafs_def)
  have rows: "length (nodes ?t ! l) = nat \<lceil>real ?n / 2 ^ (nat (Depth ?t) - 1 - l)\<rceil>
        \<and> list_all (\<lambda>x. x = zeroNode)
             (drop (nat \<lceil>real ?n / 2 ^ (nat (Depth ?t) - 1 - l)\<rceil>) (nodes ?t ! l))"
    if "int l < Depth ?t" for l
  proof -
    have l: "l \<le> L" using that d by simp
    have k: "nat (Depth ?t) - 1 - l = L - l" using d by simp
    have len: "length (nodes ?t ! l) = nat \<lceil>real ?n / 2 ^ (nat (Depth ?t) - 1 - l)\<rceil>"
      unfolding k using L(5) l by (simp only: ceil_div_pow2)
    then have "drop (nat \<lceil>real ?n / 2 ^ (nat (Depth ?t) - 1 - l)\<rceil>) (nodes ?t ! l) = []"
      by simp
    then have "list_all (\<lambda>x. x = zeroNode)
        (drop (nat \<lceil>real ?n / 2 ^ (nat (Depth ?t) - 1 - l)\<rceil>) (nodes ?t ! l))"
      by (simp only: list.pred_inject)
    then show ?thesis using len by blast
  qed
  show ?thesis using depth leafs rows by blast
qed

theorem grown_tree_shape_witness:
  "Depth (growTreeHashedLeafs toySha (hashList toySha [[1], [2], [3]])) = 3
   \<and> \<lceil>log 2 (real (3::nat))\<rceil> + 1 = 3
   \<and> Leafs (growTreeHashedLeafs toySha (hashList toySha [[1], [2], [3]])) = Inr 3
   \<and> length (nodes (growTreeHashedLeafs toySha (hashList toySha [[1], [2], [3]])) ! 1) = 2
   \<and> nat \<lceil>real (3::nat) / 2 ^ (3 - 1 - 1)\<rceil> = 2"
proof -
  have a: "0 < length (hashList toySha [[1], [2], [3]])" by (simp add: hashList_def)
  have b: "length (hashList toySha [[1], [2], [3]]) \<le> 2 ^ 62" by (simp add: hashList_def)
  have n: "length (hashList toySha [[1], [2], [3]]) = 3" by (simp add: hashList_def)
  have r: "length (nodes (growTreeHashedLeafs toySha (hashList toySha [[1], [2], [3]])) ! 1) = 2"
    by (simp add: toy_tree3)
  have i: "int 1 < Depth (growTreeHashedLeafs toySha (hashList toySha [[1], [2], [3]]))"
    by (simp add: toy_depth3)
  note th = grown_tree_shape[OF a b, of toySha]
  from th have "Depth (growTreeHashedLeafs toySha (hashList toySha [[1], [2], [3]]))
                  = \<lceil>log 2 (real (3::nat))\<rceil> + 1"
    unfolding n by blast
  moreover from th have "Leafs (growTreeHashedLeafs toySha (hashList toySha [[1], [2], [3]])) = Inr 3"
    unfolding n by simp
  moreover from th i have
    "length (nodes (growTreeHashedLeafs toySha (hashList toySha [[1], [2], [3]])) ! 1)
       = nat \<lceil>real (length (hashList toySha [[1], [2], [3]]))
                / 2 ^ (nat (Depth (growTreeHashedLeafs toySha (hashList toySha [[1], [2], [3]]))) - 1 - 1)\<rceil>"
    by blast
  ultimately show ?thesis using r by (simp add: toy_depth3 n)
qed

text \<open>
  C10. A tree grown from exactly one leaf byte-string has depth 1; its only node, the
  root, is \<open>truncatedHash\<close> of the leaf's bytes, and no \<open>computeNode\<close> step is taken;
  \<open>ConstructProof\<close> fails for every level and index, since no level lies in
  \<open>1 .. Depth - 1\<close>.
\<close>

theorem single_leaf_tree:
  "\<exists>t. GrowTree h [x] = Inr t \<and> Depth t = 1 \<and> nodes t = [[truncatedHash h x]]
       \<and> GetRoot t = Inr (truncatedHash h x)
       \<and> (\<forall>lv ix. ConstructProof t lv ix = Inl LevelOutOfRange)"
  by (auto simp add: GrowTree_def growTreeHashedLeafs_def hashList_def NewBareTree_def
        log2Ceil_1 Depth_def GetRoot_def ConstructProof_def)

section \<open>The single-child fold\<close>

lemma validateLoop_parent_unused:
  "validateLoop h p (Suc l) cur ci par = validateLoop h p (Suc l) cur ci par'"
  by simp

text \<open>
  C5. In every tree built by \<open>growTreeHashedLeafs\<close> or \<open>GrowTree\<close>, whenever a row below
  the root has odd length, the last node of the row above is \<open>truncatedHash\<close> of the bytes
  of the row's last node: the lone child is hashed once, not paired with itself.
  \<open>ValidateSubtree\<close> folds the same way. At each level the parent is \<open>truncatedHash\<close> of
  the current node when the recorded sibling is the all-zero node, and otherwise it is
  \<open>computeNode\<close> of the current node and the sibling, in the order the index gives: a
  proof of level 1 compares that parent with the root, and validating a node with a
  proof of a level above 1 is validating that parent one level up.
\<close>

theorem single_child_fold:
  assumes "t = growTreeHashedLeafs h leafs \<or> GrowTree h leafData = Inr t"
  shows "(\<forall>l. Suc l < length (nodes t) \<and> odd (length (nodes t ! Suc l)) \<longrightarrow>
            nodes t ! l \<noteq> [] \<and>
            last (nodes t ! l) = truncatedHash h (data (last (nodes t ! Suc l))))
       \<and> (\<forall>p i cur rt. p \<noteq> [] \<longrightarrow>
            ValidateSubtree h \<lparr>path = p, lvl = 1, idx = i\<rparr> cur rt =
              Inr (data (if p ! 0 = zeroNode then truncatedHash h (data cur)
                         else if getSiblingIdx i smod 2 = 1 then computeNode h cur (p ! 0)
                         else computeNode h (p ! 0) cur)
                   = data rt))
       \<and> (\<forall>p l i cur rt. Suc l < length p \<longrightarrow>
            ValidateSubtree h \<lparr>path = p, lvl = int (Suc (Suc l)), idx = i\<rparr> cur rt =
              ValidateSubtree h \<lparr>path = p, lvl = int (Suc l), idx = i sdiv 2\<rparr>
                (if p ! Suc l = zeroNode then truncatedHash h (data cur)
                 else if getSiblingIdx i smod 2 = 1 then computeNode h cur (p ! Suc l)
                 else computeNode h (p ! Suc l) cur)
                rt)"
proof -
  obtain ls where t: "t = growTreeHashedLeafs h ls"
    using assms by (auto simp: GrowTree_def split: if_splits)
  have fold: "nodes t ! l \<noteq> [] \<and> last (nodes t ! l) = truncatedHash h (data (last (nodes t ! Suc l)))"
    if l: "Suc l < length (nodes t)" and od: "odd (length (nodes t ! Suc l))" for l
  proof -
    let ?row = "nodes t ! Suc l"
    have up: "nodes t ! l = growLevel h ?row" using l unfolding t by (rule growTree_step)
    have ne: "?row \<noteq> []" using od by auto
    have len: "length (growLevel h ?row) = Suc (length ?row div 2)"
      using od by (auto simp: growLevel_length halfCeil_eq elim!: oddE)
    then have "growLevel h ?row \<noteq> []" by auto
    moreover from this have "last (growLevel h ?row) = growLevel h ?row ! (length ?row div 2)"
      using len by (simp add: last_conv_nth)
    moreover have "last ?row = ?row ! (length ?row - 1)" using ne by (rule last_conv_nth)
    ultimately show ?thesis using growLevel_lone[OF od, of h] up by simp
  qed
  have one: "ValidateSubtree h \<lparr>path = p, lvl = 1, idx = i\<rparr> cur rt =
              Inr (data (if p ! 0 = zeroNode then truncatedHash h (data cur)
                         else if getSiblingIdx i smod 2 = 1 then computeNode h cur (p ! 0)
                         else computeNode h (p ! 0) cur)
                   = data rt)"
    if "p \<noteq> []" for p i cur rt
    using that by (simp add: ValidateSubtree_def Let_def data_zero)
  have peel: "ValidateSubtree h \<lparr>path = p, lvl = int (Suc (Suc l)), idx = i\<rparr> cur rt =
              ValidateSubtree h \<lparr>path = p, lvl = int (Suc l), idx = i sdiv 2\<rparr>
                (if p ! Suc l = zeroNode then truncatedHash h (data cur)
                 else if getSiblingIdx i smod 2 = 1 then computeNode h cur (p ! Suc l)
                 else computeNode h (p ! Suc l) cur)
                rt"
    if "Suc l < length p" for p l i cur rt
  proof -
    let ?parent = "(if p ! Suc l = zeroNode then truncatedHash h (data cur)
                 else if getSiblingIdx i smod 2 = 1 then computeNode h cur (p ! Suc l)
                 else computeNode h (p ! Suc l) cur)"
    have "validateLoop h p (Suc (Suc l)) cur i None
            = validateLoop h p (Suc l) ?parent (i sdiv 2) (Some ?parent)"
      using that by (simp add: Let_def data_zero del: validateLoop.simps(2)
                       add: validateLoop.simps(2)[of h p "Suc l"])
    also have "\<dots> = validateLoop h p (Suc l) ?parent (i sdiv 2) None"
      by (rule validateLoop_parent_unused)
    finally have "validateLoop h p (Suc (Suc l)) cur i None
                    = validateLoop h p (Suc l) ?parent (i sdiv 2) None" .
    then show ?thesis
      unfolding ValidateSubtree_def by (simp only: ProofData.select_convs nat_int)
  qed
  show ?thesis using fold one peel by blast
qed

theorem single_child_fold_witness:
  "odd (length (nodes (growTreeHashedLeafs toySha (hashList toySha [[1], [2], [3]])) ! 2))
   \<and> last (nodes (growTreeHashedLeafs toySha (hashList toySha [[1], [2], [3]])) ! 1)
       = truncatedHash toySha
           (data (last (nodes (growTreeHashedLeafs toySha (hashList toySha [[1], [2], [3]])) ! 2)))
   \<and> ValidateSubtree toySha \<lparr>path = [zeroNode], lvl = 1, idx = 2\<rparr>
         (Node (4 # replicate 30 0 @ [1])) (Node (6 # replicate 30 0 @ [1])) = Inr True
   \<and> ValidateSubtree toySha
         \<lparr>path = [Node (8 # replicate 30 0 @ [1]), zeroNode], lvl = int (Suc (Suc 0)), idx = 2\<rparr>
         (Node (4 # replicate 30 0 @ [1])) (Node (17 # replicate 30 0 @ [1]))
       = ValidateSubtree toySha
         \<lparr>path = [Node (8 # replicate 30 0 @ [1]), zeroNode], lvl = int (Suc 0), idx = 2 sdiv 2\<rparr>
         (truncatedHash toySha (data (Node (4 # replicate 30 0 @ [1]))))
         (Node (17 # replicate 30 0 @ [1]))"
proof -
  let ?t = "growTreeHashedLeafs toySha (hashList toySha [[1], [2], [3]])"
  note th = single_child_fold[of ?t toySha "hashList toySha [[1], [2], [3]]" "[]", OF disjI1, OF refl]
  have o: "Suc 1 < length (nodes ?t) \<and> odd (length (nodes ?t ! Suc 1))" by (simp add: toy_tree3)
  from th o have a: "last (nodes ?t ! 1) = truncatedHash toySha (data (last (nodes ?t ! Suc 1)))"
    by blast
  have b: "ValidateSubtree toySha \<lparr>path = [zeroNode], lvl = 1, idx = 2\<rparr>
         (Node (4 # replicate 30 0 @ [1])) (Node (6 # replicate 30 0 @ [1])) = Inr True"
    using th[THEN conjunct2, THEN conjunct1, rule_format, of "[zeroNode]" 2
              "Node (4 # replicate 30 0 @ [1])" "Node (6 # replicate 30 0 @ [1])"]
    by (simp add: toy_lone)
  have c: "ValidateSubtree toySha
         \<lparr>path = [Node (8 # replicate 30 0 @ [1]), zeroNode], lvl = int (Suc (Suc 0)), idx = 2\<rparr>
         (Node (4 # replicate 30 0 @ [1])) (Node (17 # replicate 30 0 @ [1]))
       = ValidateSubtree toySha
         \<lparr>path = [Node (8 # replicate 30 0 @ [1]), zeroNode], lvl = int (Suc 0), idx = 2 sdiv 2\<rparr>
         (truncatedHash toySha (data (Node (4 # replicate 30 0 @ [1]))))
         (Node (17 # replicate 30 0 @ [1]))"
    using th[THEN conjunct2, THEN conjunct2, rule_format,
              of 0 "[Node (8 # replicate 30 0 @ [1]), zeroNode]" 2
                 "Node (4 # replicate 30 0 @ [1])" "Node (17 # replicate 30 0 @ [1])"]
    by simp
  show ?thesis using o a b c by (simp add: numeral_2_eq_2)
qed

section \<open>Proof extraction on a grown tree\<close>

text \<open>
  C7. On a grown tree (one built by \<open>growTreeHashedLeafs\<close>, hence also by \<open>GrowTree\<close>),
  \<open>ConstructProof(lvl, idx)\<close> returns an error exactly when \<open>lvl < 1\<close>, \<open>lvl \<ge> Depth\<close>,
  \<open>idx < 0\<close> or \<open>idx\<close> is not below the width of row \<open>lvl\<close>, the length of the stored
  row. Otherwise it returns a proof for \<open>(lvl, idx)\<close> whose path has exactly \<open>lvl\<close> entries;
  the entry at index \<open>l - 1\<close> is the sibling, in row \<open>l\<close>, of the ancestor
  \<open>idx div 2^(lvl - l)\<close> of the target, or the zero node when that sibling lies beyond the
  row.
\<close>

theorem ConstructProof_spec:
  assumes "t = growTreeHashedLeafs h leafs"
  shows "(isl (ConstructProof t lv ix) \<longleftrightarrow>
            lv < 1 \<or> Depth t \<le> lv \<or> ix < 0 \<or> int (length (nodes t ! nat lv)) \<le> ix)
       \<and> (\<not> isl (ConstructProof t lv ix) \<longrightarrow>
            (\<exists>p. ConstructProof t lv ix = Inr p \<and> lvl p = lv \<and> idx p = ix
                 \<and> int (length (path p)) = lv
                 \<and> (\<forall>l. 1 \<le> l \<and> l \<le> nat lv \<longrightarrow>
                       path p ! (l - 1) = siblingEntry (nodes t ! l) (nat ix div 2 ^ (nat lv - l)))))"
proof (cases "lv < 1 \<or> Depth t \<le> lv \<or> ix < 0 \<or> int (length (nodes t ! nat lv)) \<le> ix")
  case True
  then have "isl (ConstructProof t lv ix)" by (rule ConstructProof_fail)
  then show ?thesis using True by simp
next
  case False
  have rows: "\<forall>k. Suc k < length (nodes t) \<longrightarrow>
                length (nodes t ! k) = halfCeil (length (nodes t ! Suc k))"
    unfolding assms by (simp add: grown_rows)
  obtain p where p: "ConstructProof t lv ix = Inr \<lparr>path = p, lvl = lv, idx = ix\<rparr>"
      "length p = nat lv"
      "\<forall>k<nat lv. p ! k = siblingEntry (nodes t ! Suc k) (nat ix div 2 ^ (nat lv - Suc k))"
    using ConstructProof_ok[OF rows, of lv ix] False by auto
  have ent: "p ! (l - 1) = siblingEntry (nodes t ! l) (nat ix div 2 ^ (nat lv - l))"
    if a: "1 \<le> l \<and> l \<le> nat lv" for l
  proof -
    obtain k where k: "l = Suc k" using a by (cases l) auto
    then show ?thesis using p(3) a by simp
  qed
  have "int (length p) = lv" using p(2) False by simp
  then show ?thesis using False p(1) ent by simp
qed

theorem ConstructProof_spec_witness:
  "(\<exists>p. ConstructProof (growTreeHashedLeafs toySha (hashList toySha [[1], [2], [3]])) 2 2 = Inr p
        \<and> lvl p = 2 \<and> idx p = 2 \<and> length (path p) = 2
        \<and> path p ! 0 = Node (8 # replicate 30 0 @ [1]) \<and> path p ! 1 = zeroNode)
   \<and> isl (ConstructProof (growTreeHashedLeafs toySha (hashList toySha [[1], [2], [3]])) 2 3)
   \<and> isl (ConstructProof (growTreeHashedLeafs toySha (hashList toySha [[1], [2], [3]])) 3 0)"
proof -
  let ?t = "growTreeHashedLeafs toySha (hashList toySha [[1], [2], [3]])"
  note th = ConstructProof_spec[OF refl, of toySha "hashList toySha [[1], [2], [3]]"]
  have "\<not> isl (ConstructProof ?t 2 2)"
    using th[of 2 2] by (simp add: toy_depth3 toy_tree3)
  then obtain p where p: "ConstructProof ?t 2 2 = Inr p" "lvl p = 2" "idx p = 2"
      "int (length (path p)) = 2"
      "\<forall>l. 1 \<le> l \<and> l \<le> nat 2 \<longrightarrow>
             path p ! (l - 1) = siblingEntry (nodes ?t ! l) (nat 2 div 2 ^ (nat 2 - l))"
    using th[of 2 2] by blast
  have "path p ! (1 - 1) = siblingEntry (nodes ?t ! 1) (nat 2 div 2 ^ (nat 2 - 1))"
    using p(5) by (intro p(5)[rule_format]) simp
  then have e0: "path p ! 0 = Node (8 # replicate 30 0 @ [1])"
    by (simp add: toy_tree3 siblingEntry_nat)
  have "path p ! (2 - 1) = siblingEntry (nodes ?t ! 2) (nat 2 div 2 ^ (nat 2 - 2))"
    by (intro p(5)[rule_format]) simp
  then have e1: "path p ! 1 = zeroNode"
    by (simp add: toy_tree3 siblingEntry_nat)
  have len: "length (path p) = 2" using p(4) by simp
  have f1: "isl (ConstructProof ?t 2 3)"
    using th[of 2 3] by (simp add: toy_depth3 toy_tree3)
  have f2: "isl (ConstructProof ?t 3 0)"
    using th[of 3 0] by (simp add: toy_depth3)
  show ?thesis using p(1,2,3) len e0 e1 f1 f2 by blast
qed

section \<open>Validation\<close>

text \<open>
  C8, as stated, fails on the zero value of \<open>ProofData\<close>, the value \<open>ConstructProof\<close>
  returns beside an error: with \<open>lvl = 0\<close> the loop of \<open>ValidateSubtree\<close> never runs,
  \<open>parent\<close> is still nil, and the comparison \<open>parent.data != root.data\<close> dereferences it.
\<close>

theorem ValidateSubtree_empty_proof_panics:
  "ValidateSubtree toySha \<lparr>path = [], lvl = 0, idx = 0\<rparr> zeroNode zeroNode = Inl PanicNilDereference"
  by (simp add: ValidateSubtree_def)

text \<open>
  C8, amended. For every proof with \<open>1 \<le> lvl \<le> len(path)\<close>, as every proof returned by
  \<open>ConstructProof\<close> is, and for every subtree and root node, \<open>ValidateSubtree\<close> returns
  \<open>true\<close> or \<open>false\<close>: it reads no path entry out of range and \<open>parent\<close> is set when it
  is dereferenced.
\<close>

theorem ValidateSubtree_total:
  assumes "1 \<le> lvl d" and "lvl d \<le> int (length (path d))"
  shows "ValidateSubtree h d subtree rt = Inr True \<or> ValidateSubtree h d subtree rt = Inr False"
proof -
  have "nat (lvl d) \<le> length (path d)" "0 < nat (lvl d)" using assms by simp_all
  then obtain r where "validateLoop h (path d) (nat (lvl d)) subtree (idx d) None = Inr r" "r \<noteq> None"
    using validateLoop_total[of "nat (lvl d)" "path d" h subtree "idx d" None] by blast
  then show ?thesis by (auto simp: ValidateSubtree_def)
qed

theorem ValidateSubtree_total_witness:
  "(1::int) \<le> lvl \<lparr>path = [zeroNode], lvl = 1, idx = 0\<rparr>
   \<and> lvl \<lparr>path = [zeroNode], lvl = 1, idx = 0\<rparr> \<le> int (length (path \<lparr>path = [zeroNode], lvl = 1, idx = 0\<rparr>))
   \<and> (ValidateSubtree toySha \<lparr>path = [zeroNode], lvl = 1, idx = 0\<rparr> zeroNode zeroNode = Inr True
      \<or> ValidateSubtree toySha \<lparr>path = [zeroNode], lvl = 1, idx = 0\<rparr> zeroNode zeroNode = Inr False)"
  using ValidateSubtree_total[of "\<lparr>path = [zeroNode], lvl = 1, idx = 0\<rparr>" toySha zeroNode zeroNode]
  by simp

text \<open>
  Outside that range the function panics: on the nil \<open>parent\<close> for every \<open>lvl < 1\<close>, on
  \<open>d.path[currentLvl-1]\<close> when the path is shorter than \<open>lvl\<close>.
\<close>

lemma ValidateSubtree_no_level:
  "lvl d < 1 \<Longrightarrow> ValidateSubtree h d subtree rt = Inl PanicNilDereference"
  by (simp add: ValidateSubtree_def)

lemma ValidateSubtree_short_path:
  assumes "1 \<le> lvl d" "int (length (path d)) < lvl d"
  shows "ValidateSubtree h d subtree rt = Inl PanicIndexOutOfRange"
proof -
  obtain l where l: "nat (lvl d) = Suc l" using assms(1) by (cases "nat (lvl d)") auto
  then have "length (path d) \<le> l" using assms(2) by linarith
  then show ?thesis by (simp add: ValidateSubtree_def l)
qed

section \<open>Round trip\<close>

text \<open>
  Every node of a tree grown from byte-strings is a digest.
\<close>

lemma growLevel_digest:
  assumes "x \<in> set (growLevel h pre)"
  shows "\<exists>bs. x = truncatedHash h bs"
proof -
  obtain k where k: "k < halfCeil (length pre)" "x = growLevel h pre ! k"
    using assms by (auto simp: in_set_conv_nth growLevel_length)
  show ?thesis
  proof (cases "2 * k + 1 < length pre")
    case True
    then show ?thesis using k(2) by (auto simp: growLevel_pair computeNode_def)
  next
    case False
    then have "odd (length pre)" "k = length pre div 2"
      using k(1) by (auto simp: halfCeil_eq elim!: evenE oddE)
    then show ?thesis using k(2) growLevel_lone[of pre h] by auto
  qed
qed

lemma grown_nodes_digest:
  assumes "GrowTree h leafData = Inr t" and "row \<in> set (nodes t)" and "x \<in> set row"
  shows "\<exists>bs. x = truncatedHash h bs"
proof -
  let ?leafs = "hashList h leafData"
  have t: "t = growTreeHashedLeafs h ?leafs"
    using assms(1) by (auto simp: GrowTree_def split: if_splits)
  obtain l where l: "l < length (nodes t)" "row = nodes t ! l"
    using assms(2) by (auto simp: in_set_conv_nth)
  show ?thesis
  proof (cases "Suc l < length (nodes t)")
    case True
    then have "row = growLevel h (nodes t ! Suc l)" using l(2) unfolding t by (simp add: growTree_step)
    then show ?thesis using assms(3) growLevel_digest by blast
  next
    case False
    then have "l = nat (log2Ceil (int (length ?leafs)))"
      using l(1) unfolding t by (simp add: growTree_nodes(1))
    then have "row = ?leafs" using l(2) unfolding t by (simp add: growTree_nodes(2))
    then show ?thesis using assms(3) by (auto simp: hashList_def)
  qed
qed

text \<open>
  The round trip on a tree none of whose stored nodes is the all-zero node.
\<close>

lemma round_trip_on_tree:
  assumes grow: "GrowTree h leafData = Inr t"
      and size: "length leafData \<le> 2 ^ 62"
      and lv: "1 \<le> lv" "lv \<le> Depth t - 1"
      and ix: "0 \<le> ix" "ix < int (length (nodes t ! nat lv))"
      and nz: "\<forall>row\<in>set (nodes t). zeroNode \<notin> set row"
  shows "\<exists>p rt. ConstructProof t lv ix = Inr p \<and> GetRoot t = Inr rt
            \<and> ValidateSubtree h p (nodes t ! nat lv ! nat ix) rt = Inr True"
proof -
  let ?leafs = "hashList h leafData"
  have t: "t = growTreeHashedLeafs h ?leafs" and ne: "leafData \<noteq> []"
    using grow by (auto simp: GrowTree_def split: if_splits)
  have n: "0 < length ?leafs" "length ?leafs < 2 ^ 64"
  proof -
    show "0 < length ?leafs" using ne by (simp add: hashList_def)
    have "(2::nat) ^ 62 < 2 ^ 64" by simp
    then show "length ?leafs < 2 ^ 64" using size by (simp add: hashList_def)
  qed
  have rows: "\<forall>k. Suc k < length (nodes t) \<longrightarrow>
                length (nodes t ! k) = halfCeil (length (nodes t ! Suc k))"
    unfolding t by (simp add: grown_rows)
  have up: "\<forall>k. Suc k < length (nodes t) \<longrightarrow> nodes t ! k = growLevel h (nodes t ! Suc k)"
    unfolding t by (simp add: growTree_step)
  have root1: "length (nodes t ! 0) = 1" unfolding t using n by (rule root_row)
  let ?l = "nat lv" and ?c = "nat ix"
  have l: "0 < ?l" "?l < length (nodes t)" using lv by (simp_all add: Depth_def)
  have c: "?c < length (nodes t ! ?l)" using ix by linarith
  obtain p where p: "ConstructProof t lv ix = Inr \<lparr>path = p, lvl = lv, idx = ix\<rparr>"
      "length p = ?l"
      "\<forall>k<?l. p ! k = siblingEntry (nodes t ! Suc k) (?c div 2 ^ (?l - Suc k))"
    using ConstructProof_ok[OF rows, of lv ix] lv ix by auto
  have root: "GetRoot t = Inr (nodes t ! 0 ! 0)"
    using l(2) root1 by (auto simp: GetRoot_def)
  have "\<forall>k<?l. length (nodes t ! k) = halfCeil (length (nodes t ! Suc k))"
    using rows l(2) by simp
  then have "?c div 2 ^ ?l < length (nodes t ! 0)" using c by (rule walk_index)
  then have c0: "?c div 2 ^ ?l = 0" using root1 by simp
  have "validateLoop h p ?l (nodes t ! ?l ! ?c) (int ?c) None
          = Inr (Some (nodes t ! 0 ! (?c div 2 ^ ?l)))"
  proof (rule validateLoop_walk)
    show "\<forall>k<?l. nodes t ! k = growLevel h (nodes t ! Suc k)" using up l(2) by simp
    show "?c < length (nodes t ! ?l)" by (rule c)
    show "?l \<le> length p" using p(2) by simp
    show "\<forall>k<?l. p ! k = siblingEntry (nodes t ! Suc k) (?c div 2 ^ (?l - Suc k))" by (rule p(3))
    show "\<forall>k<?l. zeroNode \<notin> set (nodes t ! Suc k)"
    proof (intro allI impI)
      fix k assume "k < ?l"
      then have "nodes t ! Suc k \<in> set (nodes t)" using l(2) by (intro nth_mem) simp
      then show "zeroNode \<notin> set (nodes t ! Suc k)" using nz by blast
    qed
    show "0 < ?l" by (rule l(1))
  qed
  then have "ValidateSubtree h \<lparr>path = p, lvl = lv, idx = ix\<rparr> (nodes t ! ?l ! ?c) (nodes t ! 0 ! 0)
               = Inr True"
    using ix(1) c0 by (simp add: ValidateSubtree_def)
  then show ?thesis using p(1) root by blast
qed

text \<open>
  Every tree grown from byte-strings is such a tree when the digest never yields the
  all-zero node.
\<close>

lemma digest_never_zero:
  assumes "GrowTree h leafData = Inr t" and "\<forall>bs. truncatedHash h bs \<noteq> zeroNode"
  shows "\<forall>row\<in>set (nodes t). zeroNode \<notin> set row"
proof (intro ballI notI)
  fix row assume "row \<in> set (nodes t)" "zeroNode \<in> set row"
  then obtain bs where "zeroNode = truncatedHash h bs"
    using grown_nodes_digest[OF assms(1)] by blast
  then show False using assms(2) by metis
qed

text \<open>
  C1. For every tree grown from a non-empty sequence of leaf byte-strings and every
  position \<open>(lvl, idx)\<close> with \<open>1 \<le> lvl \<le> Depth - 1\<close> and \<open>0 \<le> idx < width(lvl)\<close>,
  \<open>ConstructProof(lvl, idx)\<close> succeeds, and validating the node stored at \<open>(lvl, idx)\<close>
  against the root with the proof it returns yields \<open>true\<close>. The all-zero node is the mark
  of an absent sibling, and \<open>ValidateSubtree\<close> states what it assumes of the digest for
  that (``all nodes will be hash digests and so the all-0 string will only happen with
  negligible probability''): the digest, a parameter here, never yields the all-zero node.
\<close>

theorem proof_round_trip:
  assumes "GrowTree h leafData = Inr t"
      and "length leafData \<le> 2 ^ 62"
      and "1 \<le> lv" and "lv \<le> Depth t - 1"
      and "0 \<le> ix" and "ix < int (length (nodes t ! nat lv))"
      and "\<forall>bs. truncatedHash h bs \<noteq> zeroNode"
  shows "\<exists>p rt. ConstructProof t lv ix = Inr p \<and> GetRoot t = Inr rt
            \<and> ValidateSubtree h p (nodes t ! nat lv ! nat ix) rt = Inr True"
  using assms(1-6) digest_never_zero[OF assms(1,7)] by (rule round_trip_on_tree)

theorem proof_round_trip_witness:
  "\<exists>t p rt. GrowTree toySha [[1], [2], [3]] = Inr t
      \<and> ConstructProof t 2 2 = Inr p \<and> path p ! 1 = zeroNode
      \<and> GetRoot t = Inr rt
      \<and> ValidateSubtree toySha p (nodes t ! 2 ! 2) rt = Inr True"
proof -
  let ?t = "growTreeHashedLeafs toySha (hashList toySha [[1], [2], [3]])"
  have g: "GrowTree toySha [[1], [2], [3]] = Inr ?t" by (simp add: GrowTree_def)
  have size: "length [[1], [2], [3::byte]] \<le> 2 ^ 62" by simp
  have lv: "(1::int) \<le> 2" "2 \<le> Depth ?t - 1" by (simp_all add: toy_depth3)
  have ix: "(0::int) \<le> 2" "2 < int (length (nodes ?t ! nat 2))" by (simp_all add: toy_tree3)
  have digest: "\<forall>bs. truncatedHash toySha bs \<noteq> zeroNode"
    by (simp add: toy_trunc toy_nonzero)
  obtain p rt where p: "ConstructProof ?t 2 2 = Inr p" "GetRoot ?t = Inr rt"
      "ValidateSubtree toySha p (nodes ?t ! nat 2 ! nat 2) rt = Inr True"
    using proof_round_trip[OF g size lv ix digest] by blast
  have "path p ! 1 = zeroNode"
    using p(1) by (auto simp: ConstructProof_def toy_depth3 toy_tree3 numeral_2_eq_2 getSiblingIdx_def)
  then show ?thesis using g p by auto
qed

section \<open>Batched proofs\<close>

lemma tree4:
  "nodes (growTreeHashedLeafs h [a, b, c, d]) =
     [[computeNode h (computeNode h a b) (computeNode h c d)],
      [computeNode h a b, computeNode h c d],
      [a, b, c, d]]"
  by (simp add: growTreeHashedLeafs_def NewBareTree_def log2Ceil_4 numeral_2_eq_2
        growLevel_Cons2 growLevel_Nil upt_rec)

text \<open>
  C4. In a tree of four leaves, the endpoints \<open>(1, 0)\<close> and \<open>(2, 0)\<close> both pass the
  checks of \<open>ConstructProof\<close>; the left path \<open>[node(1,1)]\<close> is a prefix of the right path
  \<open>[node(1,1), node(2,1)]\<close>. The scan runs up to the longer of the two lengths, so after the
  common entry it reads \<open>leftProof.path[1]\<close>, past the end of the left path:
  \<open>ConstructBatchedProof\<close> panics instead of returning the decomposition.
\<close>

theorem ConstructBatchedProof_nested_endpoints_panic:
  "ConstructBatchedProof (growTreeHashedLeafs h [a, b, c, d]) 1 0 2 0
     = Inl PanicIndexOutOfRange"
  apply (simp add: ConstructBatchedProof_def ConstructProof_def Depth_def tree4
      getSiblingIdx_def max_i_def numeral_2_eq_2)
  apply (simp add: commonLoop.simps[of _ _ _ 0] commonLoop.simps[of _ _ _ "Suc 0"])
  done

text \<open>
  Whenever \<open>ConstructBatchedProof\<close> does return, the common prefix followed by either
  suffix is the path of the corresponding single proof.
\<close>

lemma commonLoop_prefix:
  "commonLoop lp rp m ctr = Inr c \<Longrightarrow> ctr \<le> length lp \<Longrightarrow> ctr \<le> length rp \<Longrightarrow>
   take ctr lp = take ctr rp \<Longrightarrow>
   c \<le> length lp \<and> c \<le> length rp \<and> take c lp = take c rp"
proof (induction lp rp m ctr rule: commonLoop.induct)
  case (1 lp rp maxLength ctr)
  show ?case
  proof (cases "ctr < maxLength")
    case False
    then have "c = ctr" using "1.prems"(1) by (subst (asm) commonLoop.simps) simp
    then show ?thesis using "1.prems" by simp
  next
    case True
    show ?thesis
    proof (cases "length lp \<le> ctr \<or> length rp \<le> ctr")
      case True
      then show ?thesis using "1.prems"(1) \<open>ctr < maxLength\<close>
        by (subst (asm) commonLoop.simps) simp
    next
      case inr: False
      show ?thesis
      proof (cases "lp ! ctr \<noteq> rp ! ctr")
        case True
        then have "c = ctr" using "1.prems"(1) \<open>ctr < maxLength\<close> inr
          by (subst (asm) commonLoop.simps) simp
        then show ?thesis using "1.prems" by simp
      next
        case False
        have rec: "commonLoop lp rp maxLength (ctr + 1) = Inr c"
          using "1.prems"(1) \<open>ctr < maxLength\<close> inr False
          by (subst (asm) commonLoop.simps) simp
        have "take (ctr + 1) lp = take (ctr + 1) rp"
          using inr False "1.prems"(4) by (simp add: take_Suc_conv_app_nth)
        then show ?thesis
          using "1.IH"[OF \<open>ctr < maxLength\<close> inr _ rec] inr False by simp
      qed
    qed
  qed
qed

lemma ConstructBatchedProof_decomposition:
  assumes "ConstructBatchedProof d ll li rl ri = Inr b"
  shows "\<exists>leftProof rightProof.
           ConstructProof d ll li = Inr leftProof \<and> ConstructProof d rl ri = Inr rightProof
           \<and> commonPath b @ leftPath b = path leftProof
           \<and> commonPath b @ rightPath b = path rightProof"
proof -
  have g: "\<not> (ll < 1 \<or> ll \<ge> Depth d \<or> rl < 1 \<or> rl \<ge> Depth d)" "\<not> (li < 0 \<or> ri < 0)"
    using assms by (auto simp: ConstructBatchedProof_def split: if_splits)
  obtain leftProof where l: "ConstructProof d ll li = Inr leftProof"
    using assms g by (cases "ConstructProof d ll li") (simp_all add: ConstructBatchedProof_def)
  obtain rightProof where r: "ConstructProof d rl ri = Inr rightProof"
    using assms g l by (cases "ConstructProof d rl ri") (simp_all add: ConstructBatchedProof_def)
  let ?lp = "path leftProof" and ?rp = "path rightProof"
  obtain ctr where c: "commonLoop ?lp ?rp (max_i (length ?lp) (length ?rp)) 0 = Inr ctr"
    using assms g l r
    by (cases "commonLoop ?lp ?rp (max_i (length ?lp) (length ?rp)) 0")
       (simp_all add: ConstructBatchedProof_def)
  have b: "b = \<lparr>leftPath = drop ctr ?lp, rightPath = drop ctr ?rp, commonPath = take ctr ?rp,
                  leftLvl = ll, leftIdx = li, rightLvl = rl, rightIdx = ri\<rparr>"
    using assms g l r c by (simp add: ConstructBatchedProof_def split: if_splits)
  have t: "take ctr ?lp = take ctr ?rp"
    using commonLoop_prefix[OF c] by simp
  have "take ctr ?lp @ drop ctr ?lp = ?lp" "take ctr ?rp @ drop ctr ?rp = ?rp"
    by simp_all
  then have "commonPath b @ leftPath b = ?lp" "commonPath b @ rightPath b = ?rp"
    unfolding b using t by simp_all
  then show ?thesis using l r by blast
qed

text \<open>
  Endpoints on the same level have paths of the same length, and the scan stays within
  both: \<open>ConstructBatchedProof\<close> returns whenever the two single proofs exist.
\<close>

lemma commonLoop_same_length:
  "length lp = length rp \<Longrightarrow> \<exists>c. commonLoop lp rp (max_i (length lp) (length rp)) ctr = Inr c"
proof (induction "length lp - ctr" arbitrary: ctr)
  case 0
  then have "\<not> ctr < max_i (length lp) (length rp)" by (simp add: max_i_def)
  then show ?case by (subst commonLoop.simps) simp
next
  case (Suc n)
  then have c: "ctr < length lp" "ctr < length rp" "ctr < max_i (length lp) (length rp)"
    by (simp_all add: max_i_def)
  show ?case
  proof (cases "lp ! ctr \<noteq> rp ! ctr")
    case True
    then show ?thesis using c by (subst commonLoop.simps) simp
  next
    case False
    have "n = length lp - (ctr + 1)" using Suc.hyps(2) by simp
    then obtain c' where "commonLoop lp rp (max_i (length lp) (length rp)) (ctr + 1) = Inr c'"
      using Suc.hyps(1)[of "ctr + 1"] Suc.prems by blast
    then show ?thesis using c False by (subst commonLoop.simps) simp
  qed
qed

lemma proofLoop_length:
  "proofLoop d l ci pf = Inr p \<Longrightarrow> length p = length pf"
  by (induction l arbitrary: ci pf) (auto simp: Let_def split: if_splits)

lemma ConstructBatchedProof_same_level:
  assumes "ConstructProof d lv li = Inr leftProof" and "ConstructProof d lv ri = Inr rightProof"
  shows "\<exists>b. ConstructBatchedProof d lv li lv ri = Inr b"
proof -
  have g: "\<not> (lv < 1 \<or> lv \<ge> Depth d)" "\<not> li < 0" "\<not> ri < 0"
    using assms by (auto simp: ConstructProof_def split: if_splits)
  have len: "length (path leftProof) = length (path rightProof)"
  proof -
    have "length (path leftProof) = nat lv"
      using assms(1) g by (auto simp: ConstructProof_def split: sum.splits dest: proofLoop_length)
    moreover have "length (path rightProof) = nat lv"
      using assms(2) g by (auto simp: ConstructProof_def split: sum.splits dest: proofLoop_length)
    ultimately show ?thesis by simp
  qed
  obtain c where c: "commonLoop (path leftProof) (path rightProof)
                       (max_i (length (path leftProof)) (length (path rightProof))) 0 = Inr c"
    using commonLoop_same_length[OF len] by blast
  have "c \<le> length (path leftProof) \<and> c \<le> length (path rightProof)"
    using commonLoop_prefix[OF c] by simp
  then show ?thesis using assms g c by (simp add: ConstructBatchedProof_def)
qed

section \<open>The inclusion verifier\<close>

text \<open>
  C2. With a subtree proof of depth 60 and \<open>SizePc = 2^16\<close> the product
  \<open>(1 << 60) * SizePc\<close> is \<open>2^76\<close>. The code has no overflow check: the product wraps
  to 0 in \<open>uint64\<close>, the verifier goes on, and with an index proof of depth 58 (whose size
  \<open>(1 << 58) * 64\<close> wraps to 0 as well) that replays to the same root it reaches the CID
  encoding and returns successfully with \<open>SizePa = 0\<close>.
\<close>

theorem ComputeExpectedAuxData_size_wraps:
  "ComputeExpectedAuxData h stubCollaborators
     \<lparr>ProofSubtree = (60, 0, Some r, None), ProofIndex = (58, 0, Some r, None)\<rparr>
     \<lparr>CommPc = replicate 32 0, SizePc = 2 ^ 16\<rparr>
   = Inr \<lparr>CommPa = data r, SizePa = 0\<rparr>"
  by (simp add: ComputeExpectedAuxData_def stubCollaborators_def digestBytes_def
        BytesInDataSegmentIndexEntry_def BytesInNode_def)

text \<open>
  C3. When the replay of the index proof returns a nil node together with an error, the
  error is never looked at: the next statement dereferences the nil node and the verifier
  panics instead of returning an error.
\<close>

theorem ComputeExpectedAuxData_index_error_not_returned:
  "ComputeExpectedAuxData h stubCollaborators
     \<lparr>ProofSubtree = (2, 0, Some r, None), ProofIndex = (2, 0, None, Some ())\<rparr>
     \<lparr>CommPc = replicate 32 0, SizePc = 64\<rparr>
   = Inl AuxPanicNilDereference"
  by (simp add: ComputeExpectedAuxData_def stubCollaborators_def digestBytes_def
        BytesInDataSegmentIndexEntry_def BytesInNode_def)

text \<open>
  When the replay returns a node together with an error, the error is dropped and the
  verifier carries on with the node, here up to a successful return.
\<close>

lemma ComputeExpectedAuxData_index_error_dropped:
  "ComputeExpectedAuxData h stubCollaborators
     \<lparr>ProofSubtree = (2, 0, Some r, None), ProofIndex = (2, 0, Some r, Some ())\<rparr>
     \<lparr>CommPc = replicate 32 0, SizePc = 64\<rparr>
   = Inr \<lparr>CommPa = data r, SizePa = 256\<rparr>"
  by (simp add: ComputeExpectedAuxData_def stubCollaborators_def digestBytes_def
        BytesInDataSegmentIndexEntry_def BytesInNode_def)

text \<open>
  C6. Whenever \<open>ComputeExpectedAuxData\<close> returns successfully, the returned \<open>SizePa\<close> is
  \<open>(1 << subtreeProof.depth) * SizePc\<close>, which is also \<open>(1 << indexProof.depth) * 64\<close>, and
  the index entry was built with the data offset \<open>subtreeProof.idx * SizePc\<close>, a multiple
  of \<open>SizePc\<close>. The products are those of the code, in \<open>uint64\<close>.
\<close>

theorem ComputeExpectedAuxData_sizes:
  assumes "ComputeExpectedAuxData h c ip vd = Inr aux"
  shows "SizePa aux = push_bit (nat (ProofDepth c (ProofSubtree ip))) 1 * SizePc vd
       \<and> SizePa aux = push_bit (nat (ProofDepth c (ProofIndex ip))) 1 * 64
       \<and> 0 \<le> ProofDepth c (ProofSubtree ip) \<and> 0 \<le> ProofDepth c (ProofIndex ip)
       \<and> (\<exists>bs en. CIDToPieceCommitmentV1 c (CommPc vd) = (bs, None)
             \<and> MakeDataSegmentIndexEntry c (Node (take digestBytes bs))
                 (Index c (ProofSubtree ip) * SizePc vd) (SizePc vd) = (en, None))
       \<and> SizePc vd dvd Index c (ProofSubtree ip) * SizePc vd"
  using assms
  by (auto simp: ComputeExpectedAuxData_def Let_def BytesInDataSegmentIndexEntry_def
        BytesInNode_def split: prod.splits option.splits if_splits)

theorem ComputeExpectedAuxData_sizes_witness:
  "ComputeExpectedAuxData toySha stubCollaborators
     \<lparr>ProofSubtree = (2, 3, Some zeroNode, None), ProofIndex = (3, 0, Some zeroNode, None)\<rparr>
     \<lparr>CommPc = replicate 32 0, SizePc = 128\<rparr>
   = Inr \<lparr>CommPa = replicate 32 0, SizePa = 512\<rparr>
   \<and> (512 :: 64 word) = push_bit 2 1 * 128 \<and> (512 :: 64 word) = push_bit 3 1 * 64
   \<and> (128 :: 64 word) dvd 3 * 128"
proof -
  have run: "ComputeExpectedAuxData toySha stubCollaborators
     \<lparr>ProofSubtree = (2, 3, Some zeroNode, None), ProofIndex = (3, 0, Some zeroNode, None)\<rparr>
     \<lparr>CommPc = replicate 32 0, SizePc = 128\<rparr>
   = Inr \<lparr>CommPa = replicate 32 0, SizePa = 512\<rparr>"
    by (simp add: ComputeExpectedAuxData_def stubCollaborators_def digestBytes_def
        BytesInDataSegmentIndexEntry_def BytesInNode_def zeroNode_def)
  show ?thesis
    using ComputeExpectedAuxData_sizes[OF run] run
    by (simp add: stubCollaborators_def)
qed

text \<open>
  Read as natural numbers, the returned size is the product as long as the product fits
  64 bits.
\<close>

lemma unat_shift_mult:
  fixes x :: "64 word"
  assumes "2 ^ n * unat x < 2 ^ 64"
  shows "unat (push_bit n 1 * x) = 2 ^ n * unat x"
proof -
  have "unat (push_bit n 1 * x) = (unat (push_bit n (1::64 word)) * unat x) mod 2 ^ 64"
    by (simp add: unat_word_ariths)
  also have "unat (push_bit n (1::64 word)) = 2 ^ n mod 2 ^ 64"
  proof -
    have "push_bit n (1::64 word) = of_nat (2 ^ n)" by (simp add: push_bit_eq_mult)
    then show ?thesis by (simp only: unat_of_nat) simp
  qed
  also have "(2 ^ n mod 2 ^ 64 * unat x) mod 2 ^ 64 = (2 ^ n * unat x) mod 2 ^ 64"
    by (simp add: mod_mult_left_eq)
  also have "\<dots> = 2 ^ n * unat x" using assms by simp
  finally show ?thesis .
qed

lemma ComputeExpectedAuxData_sizes_nat:
  assumes "ComputeExpectedAuxData h c ip vd = Inr aux"
      and "2 ^ nat (ProofDepth c (ProofSubtree ip)) * unat (SizePc vd) < 2 ^ 64"
  shows "unat (SizePa aux) = 2 ^ nat (ProofDepth c (ProofSubtree ip)) * unat (SizePc vd)"
proof -
  have "SizePa aux = push_bit (nat (ProofDepth c (ProofSubtree ip))) 1 * SizePc vd"
    using assms(1)
    by (auto simp: ComputeExpectedAuxData_def Let_def split: prod.splits option.splits if_splits)
  then show ?thesis using unat_shift_mult[OF assms(2)] by simp
qed

end
